theory Spec2Isabelle
  imports Main
begin

section \<open>Shell words and environments\<close>

text \<open>
  The repository is a build-and-deploy pipeline written as configuration: two image
  descriptions (\<^verbatim>\<open>Dockerfile\<close> and a variant of it), a workflow file and the bundler's
  production configuration. Each file is embedded as a value of a small syntax, and the
  keys the files use are given their meaning by an interpreter over that syntax.

  An environment maps variable names to values. A word of the shell or of an
  \<^verbatim>\<open>ENV\<close> instruction is a sequence of literal pieces and variable references;
  a reference to an unset variable expands to the empty string.
\<close>

type_synonym env = "string \<rightharpoonup> string"

datatype part = Lit string | Var string

type_synonym word = "part list"

fun part_value :: "env \<Rightarrow> part \<Rightarrow> string" where
  "part_value e (Lit s) = s"
| "part_value e (Var v) = (case e v of None \<Rightarrow> [] | Some x \<Rightarrow> x)"

definition expand :: "env \<Rightarrow> word \<Rightarrow> string" where
  "expand e w = concat (map (part_value e) w)"

section \<open>The image descriptions\<close>

datatype instr = FROM string | RUN string | ENV string word | CMD string

text \<open>\<^verbatim>\<open>src/Dockerfile\<close>, lines 1 to 5.\<close>

definition Dockerfile :: "instr list" where
  "Dockerfile =
    [FROM ''node:latest'',
     RUN ''apt-get update && apt-get install -y build-essential'',
     RUN ''curl --proto '=https' --tlsv1.2 -sSf https://sh.rustup.rs | sh -s -- -y'',
     ENV ''PATH'' [Var ''PATH'', Lit '':'', Var ''HOME'', Lit ''/.cargo/bin''],
     CMD ''bash'']"

text \<open>\<^verbatim>\<open>src/unnamed/part_001\<close>, lines 1 to 5: the same file with the two sides of
  the \<^verbatim>\<open>PATH\<close> assignment exchanged.\<close>

definition Dockerfile_variant :: "instr list" where
  "Dockerfile_variant =
    [FROM ''node:latest'',
     RUN ''apt-get update && apt-get install -y build-essential'',
     RUN ''curl --proto '=https' --tlsv1.2 -sSf https://sh.rustup.rs | sh -s -- -y'',
     ENV ''PATH'' [Var ''HOME'', Lit ''/.cargo/bin'', Lit '':'', Var ''PATH''],
     CMD ''bash'']"

text \<open>
  What the image builder cannot know from the file is a parameter: the environment of
  a base image (\<open>None\<close> when the image cannot be pulled) and whether a \<^verbatim>\<open>RUN\<close>
  command exits with status zero.
\<close>

record builder =
  pull :: "string \<Rightarrow> env option"
  run_ok :: "env \<Rightarrow> string \<Rightarrow> bool"

fun build_instr :: "builder \<Rightarrow> env \<Rightarrow> instr \<Rightarrow> env option" where
  "build_instr b e (FROM img) = pull b img"
| "build_instr b e (RUN c) = (if run_ok b e c then Some e else None)"
| "build_instr b e (ENV k w) = Some (e(k \<mapsto> expand e w))"
| "build_instr b e (CMD c) = Some e"

fun provision_from :: "builder \<Rightarrow> env \<Rightarrow> instr list \<Rightarrow> env option" where
  "provision_from b e [] = Some e"
| "provision_from b e (i # rest) =
     (case build_instr b e i of None \<Rightarrow> None | Some e' \<Rightarrow> provision_from b e' rest)"

definition provision :: "builder \<Rightarrow> instr list \<Rightarrow> env option" where
  "provision b df = provision_from b Map.empty df"

section \<open>Command lookup\<close>

text \<open>
  \<^verbatim>\<open>PATH\<close> is a colon-separated list of directories. A command name without a
  slash is looked up in them from left to right; \<open>has d n\<close> says that directory \<open>d\<close>
  holds an executable named \<open>n\<close>.
\<close>

fun split_on :: "char \<Rightarrow> string \<Rightarrow> string list" where
  "split_on c [] = [[]]"
| "split_on c (x # xs) =
     (if x = c then [] # split_on c xs
      else (case split_on c xs of [] \<Rightarrow> [[x]] | s # ss \<Rightarrow> (x # s) # ss))"

definition path_dirs :: "env \<Rightarrow> string list" where
  "path_dirs e = (case e ''PATH'' of None \<Rightarrow> [] | Some p \<Rightarrow> split_on CHR '':'' p)"

definition lookup_in :: "(string \<Rightarrow> string \<Rightarrow> bool) \<Rightarrow> string list \<Rightarrow> string \<Rightarrow> string option" where
  "lookup_in has ds n = map_option (\<lambda>d. d @ ''/'' @ n) (find (\<lambda>d. has d n) ds)"

definition resolve :: "(string \<Rightarrow> string \<Rightarrow> bool) \<Rightarrow> env \<Rightarrow> string \<Rightarrow> string option" where
  "resolve has e n = (if CHR ''/'' \<in> set n then Some n else lookup_in has (path_dirs e) n)"

section \<open>The stage executor\<close>

text \<open>
  Line 33 of the workflow runs, inside the container,
  \<^verbatim>\<open>bash -c 'npm install && PATH=$HOME/.cargo/bin:$PATH NODE_ENV=production npm run build:prod'\<close>.
  The single quotes keep the runner's shell from expanding anything: the words are
  expanded by the container's shell, in the container's environment.

  A simple command is a list of assignments written before the command name, the name
  and its arguments. The shell evaluates the assignments from left to right, each in the
  environment the earlier ones produced, and passes the result to the command only.
\<close>

record command =
  assigns :: "(string \<times> word) list"
  prog :: string
  args :: "string list"

fun assign_all :: "env \<Rightarrow> (string \<times> word) list \<Rightarrow> env" where
  "assign_all e [] = e"
| "assign_all e ((k, w) # rest) = assign_all (e(k \<mapsto> expand e w)) rest"

definition stage_env :: "env \<Rightarrow> command \<Rightarrow> env" where
  "stage_env amb c = assign_all amb (assigns c)"

text \<open>
  The stage's declared overrides as a map of their own, in the specification's words:
  each declared name with the value its assignment denotes. It is compared with
  \<open>stage_env\<close> below.
\<close>

fun overrides_from :: "env \<Rightarrow> (string \<times> word) list \<Rightarrow> env" where
  "overrides_from e [] = Map.empty"
| "overrides_from e ((k, w) # rest) =
     [k \<mapsto> expand e w] ++ overrides_from (e(k \<mapsto> expand e w)) rest"

definition overrides :: "env \<Rightarrow> command \<Rightarrow> env" where
  "overrides amb c = overrides_from amb (assigns c)"

definition build_script :: "command list" where
  "build_script =
    [\<lparr>assigns = [], prog = ''npm'', args = [''install'']\<rparr>,
     \<lparr>assigns = [(''PATH'', [Var ''HOME'', Lit ''/.cargo/bin:'', Var ''PATH'']),
                 (''NODE_ENV'', [Lit ''production''])],
      prog = ''npm'', args = [''run'', ''build:prod'']\<rparr>]"

text \<open>
  The workspace is the set of regular files below it, by relative path, and the
  directories that exist without holding a file. A program is opaque: given its resolved
  path, its arguments, its environment and the workspace it returns an exit status, its
  output and the workspace it leaves. A name that resolves to nothing gives status 127.
\<close>

record filesystem =
  fs_files :: "string list"
  fs_dirs :: "string list"

record stage_result =
  sr_stage :: command
  sr_exit :: nat
  sr_output :: string

record container =
  has_exe :: "string \<Rightarrow> string \<Rightarrow> bool"
  exec :: "string \<Rightarrow> string list \<Rightarrow> env \<Rightarrow> filesystem \<Rightarrow> nat \<times> string \<times> filesystem"

definition run_command ::
  "container \<Rightarrow> env \<Rightarrow> filesystem \<Rightarrow> command \<Rightarrow> stage_result \<times> filesystem" where
  "run_command ct amb fs c =
     (let e = stage_env amb c in
      case resolve (has_exe ct) e (prog c) of
        None \<Rightarrow> (\<lparr>sr_stage = c, sr_exit = 127, sr_output = prog c @ '': command not found''\<rparr>, fs)
      | Some p \<Rightarrow>
          (case exec ct p (args c) e fs of
             (x, out, fs') \<Rightarrow> (\<lparr>sr_stage = c, sr_exit = x, sr_output = out\<rparr>, fs')))"

text \<open>The list \<^verbatim>\<open>c1 && c2 && ...\<close>: the next command runs only if the one before
  exited with status zero. The result of every command that ran is kept, in order.\<close>

fun run_stages ::
  "container \<Rightarrow> env \<Rightarrow> filesystem \<Rightarrow> command list \<Rightarrow> stage_result list \<times> filesystem" where
  "run_stages ct amb fs [] = ([], fs)"
| "run_stages ct amb fs (c # cs) =
     (case run_command ct amb fs c of
        (r, fs') \<Rightarrow>
          if sr_exit r = 0
          then (case run_stages ct amb fs' cs of (rs, fs'') \<Rightarrow> (r # rs, fs''))
          else ([r], fs'))"

text \<open>
  Two names for what the commands of a list do when each runs in the workspace the ones
  before it left: the workspace after the first \<open>n\<close> commands, and the result of the
  command at position \<open>i\<close> (counting from zero).
\<close>

fun workspace_after ::
  "container \<Rightarrow> env \<Rightarrow> filesystem \<Rightarrow> command list \<Rightarrow> nat \<Rightarrow> filesystem" where
  "workspace_after ct amb fs cs 0 = fs"
| "workspace_after ct amb fs [] (Suc n) = fs"
| "workspace_after ct amb fs (c # cs) (Suc n) =
     workspace_after ct amb (snd (run_command ct amb fs c)) cs n"

definition result_at ::
  "container \<Rightarrow> env \<Rightarrow> filesystem \<Rightarrow> command list \<Rightarrow> nat \<Rightarrow> stage_result" where
  "result_at ct amb fs cs i = fst (run_command ct amb (workspace_after ct amb fs cs i) (cs ! i))"

definition list_exit :: "stage_result list \<Rightarrow> nat" where
  "list_exit rs = (if rs = [] then 0 else sr_exit (last rs))"

section \<open>Path patterns and artifacts\<close>

text \<open>
  The patterns of the workflow (\<^verbatim>\<open>main\<close>, \<^verbatim>\<open>dist/*\<close>, \<^verbatim>\<open>pkg/*\<close>) are made of
  literal characters and \<^verbatim>\<open>*\<close>, which stands for any run of characters other than
  \<^verbatim>\<open>/\<close>. The other metacharacters of the two pattern dialects do not occur in the
  source and are not modelled.
\<close>

fun glob_match :: "string \<Rightarrow> string \<Rightarrow> bool" where
  "glob_match [] s = (s = [])"
| "glob_match (p # ps) [] = (p = CHR ''*'' \<and> glob_match ps [])"
| "glob_match (p # ps) (c # cs) =
     (if p = CHR ''*''
      then glob_match ps (c # cs) \<or> (c \<noteq> CHR ''/'' \<and> glob_match (p # ps) cs)
      else p = c \<and> glob_match ps cs)"

text \<open>
  A pattern of the artifact upload selects the workspace entries it matches, and a
  matched directory brings everything below it: a file is selected when the pattern
  matches its path or the path of one of its ancestor directories.
\<close>

definition entry_prefixes :: "string \<Rightarrow> string list" where
  "entry_prefixes f =
     map (\<lambda>n. take n f)
       (filter (\<lambda>n. n = length f \<or> f ! n = CHR ''/'') [1..<Suc (length f)])"

definition selects :: "string \<Rightarrow> string \<Rightarrow> bool" where
  "selects pat f = list_ex (glob_match pat) (entry_prefixes f)"

text \<open>
  A path is hidden when one of its components begins with a dot: a hidden file, or
  anything below a hidden directory. A member of an archive is a repository entry when
  one of its components is \<^verbatim>\<open>.git\<close> or \<^verbatim>\<open>.github\<close>.
\<close>

definition hidden :: "string \<Rightarrow> bool" where
  "hidden f = list_ex (\<lambda>c. c \<noteq> [] \<and> hd c = CHR ''.'') (split_on CHR ''/'' f)"

definition repo_entry :: "string \<Rightarrow> bool" where
  "repo_entry m = list_ex (\<lambda>c. c = ''.git'' \<or> c = ''.github'') (split_on CHR ''/'' m)"

definition strip_slash :: "string \<Rightarrow> string" where
  "strip_slash p = (if p \<noteq> [] \<and> last p = CHR ''/'' then butlast p else p)"

definition inside :: "string \<Rightarrow> string \<Rightarrow> bool" where
  "inside d f = (let x = strip_slash d @ ''/'' in take (length x) f = x \<and> length x < length f)"

definition relative_to :: "string \<Rightarrow> string \<Rightarrow> string" where
  "relative_to d f = drop (Suc (length (strip_slash d))) f"

definition dir_exists :: "filesystem \<Rightarrow> string \<Rightarrow> bool" where
  "dir_exists fs d = (strip_slash d \<in> set (fs_dirs fs) \<or> list_ex (inside d) (fs_files fs))"

section \<open>The workflow\<close>

text \<open>
  \<^verbatim>\<open>src/unnamed/part_000\<close> as a value. A step either names an action with its inputs
  (\<^verbatim>\<open>uses\<close>, \<^verbatim>\<open>with\<close>; an input of several lines is a list) or runs the
  container command of line 33 (\<^verbatim>\<open>docker compose run --build --rm app bash -c ...\<close>).
\<close>

datatype action =
    Uses string "(string \<times> string list) list"
  | ComposeRun string "command list"

record step =
  step_name :: string
  step_id :: "string option"
  step_action :: action

record job =
  job_name :: string
  runs_on :: string
  needs :: "string list"
  environment :: "(string \<times> string \<times> string) option"
  steps :: "step list"

record workflow =
  wf_name :: string
  on_push_branches :: "string list"
  permissions :: "(string \<times> string) list"
  concurrency_group :: string
  cancel_in_progress :: bool
  jobs :: "job list"

definition build_job :: job where
  "build_job =
    \<lparr>job_name = ''build'', runs_on = ''ubuntu-24.04'', needs = [], environment = None,
     steps =
      [\<lparr>step_name = ''Checkout code'', step_id = None,
        step_action = Uses ''actions/checkout@v2'' []\<rparr>,
       \<lparr>step_name = ''Set up Docker'', step_id = None,
        step_action = Uses ''docker/setup-buildx-action@v3'' []\<rparr>,
       \<lparr>step_name = ''Build Image and Run the build command'', step_id = None,
        step_action = ComposeRun ''app'' build_script\<rparr>,
       \<lparr>step_name = ''Upload artifacts'', step_id = None,
        step_action = Uses ''actions/upload-artifact@v4''
          [(''name'', [''build-artifacts'']), (''path'', [''dist/*'', ''pkg/*''])]\<rparr>,
       \<lparr>step_name = ''Upload static files as pages artifact'', step_id = Some ''deployment'',
        step_action = Uses ''actions/upload-pages-artifact@v3'' [(''path'', [''dist/''])]\<rparr>]\<rparr>"

text \<open>The job's environment is \<^verbatim>\<open>github-pages\<close>, and its URL is the expression
  \<^verbatim>\<open>steps.deployment.outputs.page_url\<close>: a step identifier and an output name.\<close>

definition deploy_job :: job where
  "deploy_job =
    \<lparr>job_name = ''deploy'', runs_on = ''ubuntu-24.04'', needs = [''build''],
     environment = Some (''github-pages'', ''deployment'', ''page_url''),
     steps =
      [\<lparr>step_name = ''Deploy to GitHub Pages'', step_id = Some ''deployment'',
        step_action = Uses ''actions/deploy-pages@v4'' []\<rparr>]\<rparr>"

definition workflow :: workflow where
  "workflow =
    \<lparr>wf_name = ''Build and Upload Artifacts'',
     on_push_branches = [''main''],
     permissions = [(''contents'', ''read''), (''pages'', ''write''), (''id-token'', ''write'')],
     concurrency_group = ''pages'',
     cancel_in_progress = False,
     jobs = [build_job, deploy_job]\<rparr>"

subsection \<open>Triggers\<close>

text \<open>
  The only event the workflow names is \<^verbatim>\<open>push\<close>, filtered by \<^verbatim>\<open>branches\<close>. A
  branch filter with no tag filter leaves pushes of tags out.
\<close>

datatype git_ref = Branch string | Tag string

datatype event = Push git_ref | Other string

definition triggered :: "workflow \<Rightarrow> event \<Rightarrow> bool" where
  "triggered flow ev =
     (case ev of
        Push (Branch b) \<Rightarrow> list_ex (\<lambda>p. glob_match p b) (on_push_branches flow)
      | Push (Tag t) \<Rightarrow> False
      | Other n \<Rightarrow> False)"

subsection \<open>Steps\<close>

text \<open>
  What lies outside the repository is a parameter of the run: the checked-out tree, the
  outcome of the Docker set-up, the image builder, the image description the service
  \<^verbatim>\<open>app\<close> is built from (the compose file is not part of the source), the environment
  the container runtime derives from the image's, the container, what the upload action
  does when nothing is found (the workflow sets no \<^verbatim>\<open>if-no-files-found\<close>), and the
  hosting target, which answers a publication with a URL or rejects it.
\<close>

datatype policy = Warn | Error | Ignore

record world =
  checkout_repo :: "filesystem option"
  buildx_ok :: bool
  image_builder :: builder
  service_image :: "instr list"
  runtime_env :: "env \<Rightarrow> env"
  box :: container
  no_files_policy :: policy
  publish :: "string list \<Rightarrow> string option"

datatype failure =
    ProvisionError
  | StageError stage_result
  | CollectionError string "string list"
  | PublishError
  | ActionError string

text \<open>
  A run's state: the workspace of the current job, the artifact store (name and member
  files), what the hosting target shows, the outputs of the current job's steps (step
  identifier, output name, value), the URLs recorded for environments, and the results
  of the stages that ran.
\<close>

record state =
  workspace :: filesystem
  store :: "(string \<times> string list) list"
  site :: "string list option"
  outputs :: "(string \<times> string \<times> string) list"
  urls :: "(string \<times> string) list"
  results :: "stage_result list"

definition input_or :: "(string \<times> string list) list \<Rightarrow> string \<Rightarrow> string list \<Rightarrow> string list" where
  "input_or ins k d = (case map_of ins k of None \<Rightarrow> d | Some v \<Rightarrow> v)"

text \<open>
  \<^verbatim>\<open>actions/upload-artifact\<close>: all patterns of \<^verbatim>\<open>path\<close> are searched together and
  what they find becomes one artifact. The workflow sets no \<^verbatim>\<open>include-hidden-files\<close>,
  so the search leaves hidden paths out. Only an empty result is special: nothing is
  uploaded, and the step fails if the policy is \<open>Error\<close>.
\<close>

definition found_files :: "string list \<Rightarrow> filesystem \<Rightarrow> string list" where
  "found_files pats fs =
     filter (\<lambda>f. \<not> hidden f \<and> list_ex (\<lambda>p. selects p f) pats) (fs_files fs)"

definition upload_artifact ::
  "policy \<Rightarrow> (string \<times> string list) list \<Rightarrow> state \<Rightarrow> failure option \<times> state" where
  "upload_artifact pol ins st =
     (let nm = concat (input_or ins ''name'' [''artifact'']);
          pats = input_or ins ''path'' [];
          found = found_files pats (workspace st)
      in if found = []
         then (if pol = Error then (Some (CollectionError nm pats), st) else (None, st))
         else (None, st\<lparr>store := store st @ [(nm, found)]\<rparr>))"

text \<open>
  \<^verbatim>\<open>actions/upload-pages-artifact\<close>: the directory \<^verbatim>\<open>path\<close> is archived, members
  named relative to it, and stored as the artifact \<^verbatim>\<open>github-pages\<close>; a directory
  that does not exist fails the step. The archive command excludes \<^verbatim>\<open>.git\<close> and
  \<^verbatim>\<open>.github\<close> wherever they occur below the directory.
\<close>

definition pages_members :: "string \<Rightarrow> filesystem \<Rightarrow> string list" where
  "pages_members d fs =
     filter (\<lambda>f. inside d f \<and> \<not> repo_entry (relative_to d f)) (fs_files fs)"

definition upload_pages_artifact ::
  "(string \<times> string list) list \<Rightarrow> state \<Rightarrow> failure option \<times> state" where
  "upload_pages_artifact ins st =
     (let nm = concat (input_or ins ''name'' [''github-pages'']);
          d = concat (input_or ins ''path'' [''_site/''])
      in if dir_exists (workspace st) d
         then (None, st\<lparr>store := store st @
                 [(nm, map (relative_to d) (pages_members d (workspace st)))]\<rparr>)
         else (Some (CollectionError nm [d]), st))"

text \<open>
  \<^verbatim>\<open>actions/deploy-pages\<close>: the artifact \<^verbatim>\<open>github-pages\<close> of the run is handed to
  the hosting target; on success its members are what the target shows and the step's
  output \<^verbatim>\<open>page_url\<close> is the URL the target returned.
\<close>

definition deploy_pages ::
  "world \<Rightarrow> string option \<Rightarrow> (string \<times> string list) list \<Rightarrow> state \<Rightarrow> failure option \<times> state" where
  "deploy_pages w sid ins st =
     (case map_of (store st) (concat (input_or ins ''artifact_name'' [''github-pages''])) of
        None \<Rightarrow> (Some PublishError, st)
      | Some members \<Rightarrow>
          (case publish w members of
             None \<Rightarrow> (Some PublishError, st)
           | Some u \<Rightarrow>
               (None, st\<lparr>site := Some members,
                         outputs := outputs st @
                           (case sid of None \<Rightarrow> [] | Some i \<Rightarrow> [(i, ''page_url'', u)])\<rparr>)))"

text \<open>
  The container step: \<^verbatim>\<open>--build\<close> builds the service's image first, and a failed
  build runs nothing. The stages then run in the container, on the workspace; the step
  succeeds when the command list exits with status zero.
\<close>

definition compose_run :: "world \<Rightarrow> command list \<Rightarrow> state \<Rightarrow> failure option \<times> state" where
  "compose_run w cs st =
     (case provision (image_builder w) (service_image w) of
        None \<Rightarrow> (Some ProvisionError, st)
      | Some image_env \<Rightarrow>
          (case run_stages (box w) (runtime_env w image_env) (workspace st) cs of
             (rs, fs') \<Rightarrow>
               (if list_exit rs = 0 then None else Some (StageError (last rs)),
                st\<lparr>workspace := fs', results := results st @ rs\<rparr>)))"

definition run_step :: "world \<Rightarrow> state \<Rightarrow> step \<Rightarrow> failure option \<times> state" where
  "run_step w st s =
     (case step_action s of
        ComposeRun service cs \<Rightarrow> compose_run w cs st
      | Uses a ins \<Rightarrow>
          if a = ''actions/checkout@v2'' then
            (case checkout_repo w of
               None \<Rightarrow> (Some (ActionError a), st)
             | Some tree \<Rightarrow> (None, st\<lparr>workspace := tree\<rparr>))
          else if a = ''docker/setup-buildx-action@v3'' then
            (if buildx_ok w then (None, st) else (Some (ActionError a), st))
          else if a = ''actions/upload-artifact@v4'' then upload_artifact (no_files_policy w) ins st
          else if a = ''actions/upload-pages-artifact@v3'' then upload_pages_artifact ins st
          else if a = ''actions/deploy-pages@v4'' then deploy_pages w (step_id s) ins st
          else (Some (ActionError a), st))"

text \<open>Steps run in order; a step runs only if every step before it succeeded.\<close>

fun run_steps :: "world \<Rightarrow> state \<Rightarrow> step list \<Rightarrow> failure option \<times> state" where
  "run_steps w st [] = (None, st)"
| "run_steps w st (s # ss) =
     (case run_step w st s of
        (None, st') \<Rightarrow> run_steps w st' ss
      | (Some f, st') \<Rightarrow> (Some f, st'))"

subsection \<open>Jobs and runs\<close>

text \<open>
  Every job starts on a fresh runner: an empty workspace and no step outputs. A job
  runs only if every job it needs has succeeded, and is skipped otherwise. After a
  successful job with an environment, the environment's URL expression is evaluated on
  the job's step outputs; an output that does not exist gives the empty string.
\<close>

datatype conclusion = Success | Failure failure | Skipped

definition fresh :: "state \<Rightarrow> state" where
  "fresh st = st\<lparr>workspace := \<lparr>fs_files = [], fs_dirs = []\<rparr>, outputs := []\<rparr>"

definition output_of :: "state \<Rightarrow> string \<Rightarrow> string \<Rightarrow> string" where
  "output_of st i k =
     (case find (\<lambda>(i', k', v). i' = i \<and> k' = k) (outputs st) of
        None \<Rightarrow> []
      | Some (i', k', v) \<Rightarrow> v)"

definition record_url :: "job \<Rightarrow> state \<Rightarrow> state" where
  "record_url j st =
     (case environment j of
        None \<Rightarrow> st
      | Some (n, i, k) \<Rightarrow> st\<lparr>urls := urls st @ [(n, output_of st i k)]\<rparr>)"

definition run_job :: "world \<Rightarrow> state \<Rightarrow> job \<Rightarrow> conclusion \<times> state" where
  "run_job w st j =
     (case run_steps w (fresh st) (steps j) of
        (None, st') \<Rightarrow> (Success, record_url j st')
      | (Some f, st') \<Rightarrow> (Failure f, st'))"

fun run_jobs ::
  "world \<Rightarrow> (string \<times> conclusion) list \<Rightarrow> state \<Rightarrow> job list \<Rightarrow> (string \<times> conclusion) list \<times> state" where
  "run_jobs w cs st [] = (cs, st)"
| "run_jobs w cs st (j # js) =
     (if list_all (\<lambda>n. map_of cs n = Some Success) (needs j)
      then (case run_job w st j of (c, st') \<Rightarrow> run_jobs w (cs @ [(job_name j, c)]) st' js)
      else run_jobs w (cs @ [(job_name j, Skipped)]) st js)"

datatype status = Succeeded | Failed failure

fun run_status :: "(string \<times> conclusion) list \<Rightarrow> status" where
  "run_status [] = Succeeded"
| "run_status ((n, Failure f) # cs) = Failed f"
| "run_status ((n, c) # cs) = run_status cs"

record pipeline_run =
  trigger :: event
  conclusions :: "(string \<times> conclusion) list"
  final :: state

definition initial :: state where
  "initial = \<lparr>workspace = \<lparr>fs_files = [], fs_dirs = []\<rparr>, store = [], site = None,
              outputs = [], urls = [], results = []\<rparr>"

definition run_workflow :: "world \<Rightarrow> workflow \<Rightarrow> event \<Rightarrow> pipeline_run" where
  "run_workflow w flow ev =
     (case run_jobs w [] initial (jobs flow) of
        (cs, st) \<Rightarrow> \<lparr>trigger = ev, conclusions = cs, final = st\<rparr>)"

text \<open>An event that the trigger filter rejects creates no run.\<close>

definition start :: "world \<Rightarrow> workflow \<Rightarrow> event \<Rightarrow> pipeline_run option" where
  "start w flow ev = (if triggered flow ev then Some (run_workflow w flow ev) else None)"

definition run_url :: "pipeline_run \<Rightarrow> string" where
  "run_url r = (case map_of (urls (final r)) ''github-pages'' of None \<Rightarrow> [] | Some u \<Rightarrow> u)"

section \<open>The concurrency group\<close>

text \<open>
  Lines 14 to 18 of the workflow: every run belongs to the group \<^verbatim>\<open>pages\<close>, and
  \<^verbatim>\<open>cancel-in-progress\<close> is false. The file's own comment gives the meaning: only one
  run of the group is in progress at a time; a run queued while another is in progress
  waits, and replaces the run that was waiting before it ("skipping runs queued between
  the run in-progress and latest queued"); the run in progress is not cancelled. With
  \<^verbatim>\<open>cancel-in-progress: true\<close> the run in progress would be cancelled as well and
  the new run would start at once.

  The group applies to the whole run, so a run holds its place from its first job to its
  last. The gate's state is the list of the runs it has seen.
\<close>

datatype phase = Pending | InProgress | Cancelled | Completed

record entry =
  run_id :: nat
  grp :: string
  phase :: phase

datatype gate_event = Queue nat | Finish nat

definition busy :: "string \<Rightarrow> entry list \<Rightarrow> bool" where
  "busy g es = list_ex (\<lambda>e. grp e = g \<and> phase e = InProgress) es"

definition cancel_where :: "(entry \<Rightarrow> bool) \<Rightarrow> entry list \<Rightarrow> entry list" where
  "cancel_where P es = map (\<lambda>e. if P e then e\<lparr>phase := Cancelled\<rparr> else e) es"

definition queue_run :: "workflow \<Rightarrow> nat \<Rightarrow> entry list \<Rightarrow> entry list" where
  "queue_run flow r es =
     (let g = concurrency_group flow in
      if list_ex (\<lambda>e. run_id e = r) es then es
      else if busy g es then
        (if cancel_in_progress flow
         then cancel_where (\<lambda>e. grp e = g \<and> (phase e = Pending \<or> phase e = InProgress)) es
                @ [\<lparr>run_id = r, grp = g, phase = InProgress\<rparr>]
         else cancel_where (\<lambda>e. grp e = g \<and> phase e = Pending) es
                @ [\<lparr>run_id = r, grp = g, phase = Pending\<rparr>])
      else es @ [\<lparr>run_id = r, grp = g, phase = InProgress\<rparr>])"

text \<open>When the run in progress finishes, the waiting run of its group starts.\<close>

fun promote :: "string \<Rightarrow> entry list \<Rightarrow> entry list" where
  "promote g [] = []"
| "promote g (e # es) =
     (if grp e = g \<and> phase e = Pending then e\<lparr>phase := InProgress\<rparr> # es
      else e # promote g es)"

definition complete :: "nat \<Rightarrow> entry list \<Rightarrow> entry list" where
  "complete r es =
     map (\<lambda>e. if run_id e = r \<and> phase e = InProgress then e\<lparr>phase := Completed\<rparr> else e) es"

definition finish :: "nat \<Rightarrow> entry list \<Rightarrow> entry list" where
  "finish r es =
     (case find (\<lambda>e. run_id e = r \<and> phase e = InProgress) es of
        None \<Rightarrow> es
      | Some e0 \<Rightarrow> promote (grp e0) (complete r es))"

definition gate_step :: "workflow \<Rightarrow> entry list \<Rightarrow> gate_event \<Rightarrow> entry list" where
  "gate_step flow es ev = (case ev of Queue r \<Rightarrow> queue_run flow r es | Finish r \<Rightarrow> finish r es)"

definition gate_run :: "workflow \<Rightarrow> gate_event list \<Rightarrow> entry list" where
  "gate_run flow evs = foldl (gate_step flow) [] evs"

definition phase_of :: "entry list \<Rightarrow> nat \<Rightarrow> phase option" where
  "phase_of es r = map_option phase (find (\<lambda>e. run_id e = r) es)"

definition in_progress :: "string \<Rightarrow> entry list \<Rightarrow> nat list" where
  "in_progress g es = map run_id (filter (\<lambda>e. grp e = g \<and> phase e = InProgress) es)"

definition waiting :: "string \<Rightarrow> entry list \<Rightarrow> nat list" where
  "waiting g es = map run_id (filter (\<lambda>e. grp e = g \<and> phase e = Pending) es)"

text \<open>
  What holds of every state the gate reaches: run identifiers are not repeated, and in
  each group at most one run is in progress, at most one waits, and a run waits only
  while another is in progress.
\<close>

definition gate_inv :: "entry list \<Rightarrow> bool" where
  "gate_inv es =
     (distinct (map run_id es) \<and>
      (\<forall>g. length (in_progress g es) \<le> 1 \<and> length (waiting g es) \<le> 1 \<and>
           (in_progress g es = [] \<longrightarrow> waiting g es = [])))"

section \<open>The bundler's production configuration\<close>

text \<open>
  \<^verbatim>\<open>src/webpack.prod.js\<close>. The output directory is \<^verbatim>\<open>dist\<close> resolved against the
  directory of the configuration file, and the bundle is \<^verbatim>\<open>index.js\<close> in it.
\<close>

record bundler =
  entry_point :: string
  output_dir :: string
  output_filename :: string
  html_template :: string
  crate_directory :: string
  force_mode :: string
  node_env :: string
  mode :: string
  minimize :: bool
  async_web_assembly :: bool

definition webpack_prod :: bundler where
  "webpack_prod =
    \<lparr>entry_point = ''./index.js'', output_dir = ''dist'', output_filename = ''index.js'',
     html_template = ''index.html'', crate_directory = ''.'', force_mode = ''production'',
     node_env = ''production'', mode = ''production'', minimize = True,
     async_web_assembly = True\<rparr>"

definition path_resolve :: "string \<Rightarrow> string \<Rightarrow> string" where
  "path_resolve base p =
     (if p \<noteq> [] \<and> hd p = CHR ''/'' then p else strip_slash base @ ''/'' @ p)"

definition bundle_file :: "string \<Rightarrow> bundler \<Rightarrow> string" where
  "bundle_file dirname b = path_resolve dirname (output_dir b) @ ''/'' @ output_filename b"

text \<open>A file's path as the workspace names it, when the file lies below the
  workspace's root.\<close>

definition workspace_path :: "string \<Rightarrow> string \<Rightarrow> string option" where
  "workspace_path root f = (if inside root f then Some (relative_to root f) else None)"

section \<open>Names for parts of a run\<close>

text \<open>
  The directories the two image descriptions put on \<^verbatim>\<open>PATH\<close>: those of the base
  image's \<^verbatim>\<open>PATH\<close>, and \<^verbatim>\<open>$HOME/.cargo/bin\<close> as the builder expands it.
\<close>

definition ambient_dirs :: "env \<Rightarrow> string list" where
  "ambient_dirs e0 = split_on CHR '':'' (expand e0 [Var ''PATH''])"

definition cargo_dirs :: "env \<Rightarrow> string list" where
  "cargo_dirs e0 = split_on CHR '':'' (expand e0 [Var ''HOME''] @ ''/.cargo/bin'')"

text \<open>A command mentions \<^verbatim>\<open>PATH\<close> when one of its assignments sets it or reads it. A
  container is blind to \<^verbatim>\<open>PATH\<close> when no program's behaviour depends on its value.\<close>

definition mentions_path :: "command \<Rightarrow> bool" where
  "mentions_path c = list_ex (\<lambda>(k, w). k = ''PATH'' \<or> Var ''PATH'' \<in> set w) (assigns c)"

definition path_blind :: "container \<Rightarrow> bool" where
  "path_blind ct = (\<forall>p a e v fs. exec ct p a (e(''PATH'' \<mapsto> v)) fs = exec ct p a e fs)"

text \<open>
  The build job in two parts: the steps up to the container command (lines 25 to 33), and
  the two upload steps (lines 35 to 48), which collect the artifacts.
\<close>

definition build_steps :: "step list" where
  "build_steps = take 3 (steps build_job)"

definition collection_steps :: "step list" where
  "collection_steps = drop 3 (steps build_job)"

definition after_build :: "world \<Rightarrow> failure option \<times> state" where
  "after_build w = run_steps w (fresh initial) build_steps"

definition built :: "world \<Rightarrow> filesystem" where
  "built w = workspace (snd (after_build w))"

definition collect :: "world \<Rightarrow> state \<Rightarrow> failure option \<times> state" where
  "collect w st = run_steps w st collection_steps"

section \<open>Sample worlds\<close>

text \<open>Concrete builders, containers and workspaces, on which the theorems below are
  instantiated.\<close>

definition plain_builder :: builder where
  "plain_builder =
     \<lparr>pull = (\<lambda>i. if i = ''node:latest'' then Some [''PATH'' \<mapsto> ''/usr/local/bin''] else None),
      run_ok = (\<lambda>e c. True)\<rparr>"

definition no_files :: filesystem where
  "no_files = \<lparr>fs_files = [], fs_dirs = []\<rparr>"

text \<open>A container whose only program prints the variables named by its arguments, and
  the command \<^verbatim>\<open>printenv PATH\<close>.\<close>

definition printenv_box :: container where
  "printenv_box =
     \<lparr>has_exe = (\<lambda>d n. d = ''/usr/local/bin'' \<and> n = ''printenv''),
      exec = (\<lambda>p a e fs. (0, expand e (map Var a), fs))\<rparr>"

definition printenv_path :: command where
  "printenv_path = \<lparr>assigns = [], prog = ''printenv'', args = [''PATH'']\<rparr>"

text \<open>A container with one tool in a subdirectory of \<^verbatim>\<open>/.cargo/bin\<close>, and a command
  that extends \<^verbatim>\<open>PATH\<close> without a colon: \<^verbatim>\<open>PATH=$PATH/tools mytool\<close>.\<close>

definition tool_box :: container where
  "tool_box =
     \<lparr>has_exe = (\<lambda>d n. d = ''/.cargo/bin/tools'' \<and> n = ''mytool''),
      exec = (\<lambda>p a e fs. (0, [], fs))\<rparr>"

definition run_mytool :: command where
  "run_mytool = \<lparr>assigns = [(''PATH'', [Var ''PATH'', Lit ''/tools''])], prog = ''mytool'', args = []\<rparr>"

text \<open>A container in which \<^verbatim>\<open>npm\<close> succeeds and does nothing, and one in which
  \<^verbatim>\<open>npm install\<close> succeeds and the build command exits with status 3.\<close>

definition quiet_box :: container where
  "quiet_box =
     \<lparr>has_exe = (\<lambda>d n. d = ''/usr/local/bin'' \<and> n = ''npm''),
      exec = (\<lambda>p a e fs. (0, [], fs))\<rparr>"

definition failing_build :: container where
  "failing_build =
     \<lparr>has_exe = (\<lambda>d n. d = ''/usr/local/bin'' \<and> n = ''npm''),
      exec = (\<lambda>p a e fs.
        if a = [''install'']
        then (0, ''added 1 package'',
              fs\<lparr>fs_files := fs_files fs @ [''node_modules/webpack/package.json'']\<rparr>)
        else (3, ''webpack: build failed'', fs))\<rparr>"

text \<open>An environment as the first image description bakes it, with a development
  setting of \<^verbatim>\<open>NODE_ENV\<close>.\<close>

definition baked_env :: env where
  "baked_env = [''PATH'' \<mapsto> ''/usr/local/bin:/.cargo/bin'', ''HOME'' \<mapsto> ''/root'',
                ''NODE_ENV'' \<mapsto> ''development'']"

text \<open>A world in which every step succeeds and the build command adds the given files
  to the workspace; a state whose workspace holds bundler output and nothing under
  \<^verbatim>\<open>pkg/\<close>; and the files of a complete build.\<close>

definition sample_world :: "string list \<Rightarrow> world" where
  "sample_world made =
     \<lparr>checkout_repo =
        Some \<lparr>fs_files = [''index.html'', ''index.js'', ''webpack.prod.js''], fs_dirs = []\<rparr>,
      buildx_ok = True,
      image_builder = plain_builder,
      service_image = Dockerfile,
      runtime_env = (\<lambda>e. e(''HOME'' \<mapsto> ''/root'')),
      box = \<lparr>has_exe = (\<lambda>d n. d = ''/usr/local/bin'' \<and> n = ''npm''),
             exec = (\<lambda>p a e fs. if a = [''install''] then (0, [], fs)
                                 else (0, [], fs\<lparr>fs_files := fs_files fs @ made\<rparr>))\<rparr>,
      no_files_policy = Error,
      publish = (\<lambda>ms. Some ''https://pages.example/GearGen/'')\<rparr>"

definition dist_only :: state where
  "dist_only =
     initial\<lparr>workspace := \<lparr>fs_files = [''dist/index.html'', ''dist/index.js''], fs_dirs = []\<rparr>\<rparr>"

definition full_build :: "string list" where
  "full_build = [''dist/index.html'', ''dist/index.js'', ''pkg/geargen_bg.wasm'']"

text \<open>A complete build as the native-module tool leaves it, with its hidden
  \<^verbatim>\<open>pkg/.gitignore\<close>, and a stray repository directory inside \<^verbatim>\<open>dist/\<close>.\<close>

definition build_with_hidden :: "string list" where
  "build_with_hidden = full_build @ [''pkg/.gitignore'', ''dist/.git/config'']"

section \<open>The trigger filter\<close>

lemma glob_literal: "CHR ''*'' \<notin> set p \<Longrightarrow> glob_match p s = (s = p)"
  by (induction p s rule: glob_match.induct) auto

lemma triggered_workflow: "triggered workflow ev = (ev = Push (Branch ''main''))"
  by (auto simp: triggered_def workflow_def glob_literal split: event.splits git_ref.splits)

text \<open>
  Claim C6. For every trigger event, a run of the pipeline is created if and only if the
  event is a push to the branch \<^verbatim>\<open>main\<close>. Every other event (a push to another
  branch such as \<^verbatim>\<open>feature/x\<close>, a push of a tag, an event of another kind) is
  rejected by the filter before anything runs, and no run exists for it.
\<close>

theorem trigger_only_main:
  "start w workflow ev =
     (if ev = Push (Branch ''main'') then Some (run_workflow w workflow ev) else None)"
  by (simp add: start_def triggered_workflow)

theorem trigger_only_main_witness:
  "\<forall>w. start w workflow (Push (Branch ''feature/x'')) = None"
  using trigger_only_main [of _ "Push (Branch ''feature/x'')"] by simp

section \<open>The concurrency group: one run at a time\<close>

lemma busy_iff: "busy g es = (in_progress g es \<noteq> [])"
  by (induction es) (auto simp: busy_def in_progress_def)

lemma in_progress_append:
  "in_progress g (es @ [e]) =
     in_progress g es @ (if grp e = g \<and> phase e = InProgress then [run_id e] else [])"
  by (simp add: in_progress_def)

lemma waiting_append:
  "waiting g (es @ [e]) =
     waiting g es @ (if grp e = g \<and> phase e = Pending then [run_id e] else [])"
  by (simp add: waiting_def)

lemma ids_cancel_where: "map run_id (cancel_where P es) = map run_id es"
  by (induction es) (auto simp: cancel_where_def)

lemma in_progress_cancel_pending:
  "in_progress g (cancel_where (\<lambda>e. grp e = h \<and> phase e = Pending) es) = in_progress g es"
  by (induction es) (auto simp: cancel_where_def in_progress_def)

lemma waiting_cancel_pending:
  "waiting g (cancel_where (\<lambda>e. grp e = h \<and> phase e = Pending) es) =
     (if g = h then [] else waiting g es)"
  by (induction es) (auto simp: cancel_where_def waiting_def)

lemma in_progress_cancel_all:
  "in_progress g (cancel_where (\<lambda>e. grp e = h \<and> (phase e = Pending \<or> phase e = InProgress)) es) =
     (if g = h then [] else in_progress g es)"
  by (induction es) (auto simp: cancel_where_def in_progress_def)

lemma waiting_cancel_all:
  "waiting g (cancel_where (\<lambda>e. grp e = h \<and> (phase e = Pending \<or> phase e = InProgress)) es) =
     (if g = h then [] else waiting g es)"
  by (induction es) (auto simp: cancel_where_def waiting_def)

lemma ex_id_iff: "list_ex (\<lambda>e. run_id e = r) es = (r \<in> set (map run_id es))"
  by (induction es) auto

lemma gate_inv_queue: "gate_inv es \<Longrightarrow> gate_inv (queue_run flow r es)"
  unfolding gate_inv_def queue_run_def Let_def
  by (auto simp: busy_iff in_progress_append waiting_append ids_cancel_where
      in_progress_cancel_pending waiting_cancel_pending in_progress_cancel_all
      waiting_cancel_all ex_id_iff)


lemma ids_complete: "map run_id (complete r es) = map run_id es"
  by (induction es) (auto simp: complete_def)

lemma in_progress_complete:
  "in_progress g (complete r es) = filter (\<lambda>x. x \<noteq> r) (in_progress g es)"
  by (induction es) (auto simp: complete_def in_progress_def)

lemma waiting_complete: "waiting g (complete r es) = waiting g es"
  by (induction es) (auto simp: complete_def waiting_def)

lemma ids_promote: "map run_id (promote g es) = map run_id es"
  by (induction es) auto

lemma promote_none: "waiting g es = [] \<Longrightarrow> promote g es = es"
  by (induction es) (auto simp: waiting_def split: if_splits)

lemma promote_other:
  "h \<noteq> g \<Longrightarrow> in_progress h (promote g es) = in_progress h es \<and> waiting h (promote g es) = waiting h es"
  by (induction es) (auto simp: waiting_def in_progress_def)

lemma promote_some:
  "in_progress g es = [] \<Longrightarrow> waiting g es = p # ps \<Longrightarrow>
     in_progress g (promote g es) = [p] \<and> waiting g (promote g es) = ps"
  by (induction es) (auto simp: waiting_def in_progress_def split: if_splits)

lemma find_in_progress:
  "find (\<lambda>e. run_id e = r \<and> phase e = InProgress) es = Some e0 \<Longrightarrow> r \<in> set (in_progress (grp e0) es)"
  by (induction es) (auto simp: in_progress_def split: if_splits)

lemma short_list: "length xs \<le> 1 \<Longrightarrow> x \<in> set xs \<Longrightarrow> xs = [x]"
  by (cases xs) auto

lemma short_tail: "length (x # xs) \<le> 1 \<Longrightarrow> xs = []"
  by simp

lemma in_progress_ids: "r \<in> set (in_progress g es) \<Longrightarrow> r \<in> set (map run_id es)"
  by (auto simp: in_progress_def)

lemma one_group:
  "distinct (map run_id es) \<Longrightarrow> r \<in> set (in_progress g es) \<Longrightarrow> r \<in> set (in_progress h es) \<Longrightarrow> g = h"
proof (induction es)
  case Nil
  then show ?case by (simp add: in_progress_def)
next
  case (Cons a es)
  show ?case
  proof (cases "run_id a = r")
    case True
    with Cons.prems(1) have "r \<notin> set (map run_id es)" by auto
    with in_progress_ids have "r \<notin> set (in_progress g es)" "r \<notin> set (in_progress h es)"
      by blast+
    with Cons.prems(2,3) show ?thesis
      by (auto simp: in_progress_def split: if_splits)
  next
    case False
    with Cons.prems have "r \<in> set (in_progress g es)" "r \<in> set (in_progress h es)"
      by (auto simp: in_progress_def split: if_splits)
    with Cons.IH Cons.prems(1) show ?thesis by simp
  qed
qed

lemma gate_inv_finish:
  assumes "gate_inv es"
  shows "gate_inv (finish r es)"
proof (cases "find (\<lambda>e. run_id e = r \<and> phase e = InProgress) es")
  case None
  then show ?thesis using assms by (simp add: finish_def)
next
  case (Some e0)
  let ?g = "grp e0"
  have mem: "r \<in> set (in_progress ?g es)" by (rule find_in_progress [OF Some])
  have len: "length (in_progress ?g es) \<le> 1" using assms by (simp add: gate_inv_def)
  have ip: "in_progress ?g es = [r]" by (rule short_list [OF len mem])
  have none: "in_progress ?g (complete r es) = []"
    by (simp add: in_progress_complete ip)
  have fin: "finish r es = promote ?g (complete r es)"
    by (simp add: finish_def Some)
  have dist: "distinct (map run_id es)" using assms by (simp add: gate_inv_def)
  have d: "distinct (map run_id (finish r es))"
    using dist by (simp add: fin ids_promote ids_complete)
  have g: "length (in_progress h (finish r es)) \<le> 1 \<and> length (waiting h (finish r es)) \<le> 1 \<and>
          (in_progress h (finish r es) = [] \<longrightarrow> waiting h (finish r es) = [])" for h
  proof (cases "h = ?g")
    case False
    have "r \<notin> set (in_progress h es)"
      using one_group [OF dist mem] False by blast
    then have same: "filter (\<lambda>x. x \<noteq> r) (in_progress h es) = in_progress h es"
      by (auto simp: filter_id_conv)
    show ?thesis
      using assms False unfolding gate_inv_def
      by (simp add: fin promote_other in_progress_complete waiting_complete same)
  next
    case True
    show ?thesis
    proof (cases "waiting ?g es")
      case Nil
      then show ?thesis
        using none True by (simp add: fin promote_none waiting_complete)
    next
      case (Cons p ps)
      have "length (waiting ?g es) \<le> 1" using assms by (simp add: gate_inv_def)
      then have "ps = []" using Cons by simp
      with Cons promote_some [OF none, of p ps] show ?thesis
        using True by (simp add: fin waiting_complete)
    qed
  qed
  show ?thesis unfolding gate_inv_def using d g by blast
qed

lemma gate_inv_step: "gate_inv es \<Longrightarrow> gate_inv (gate_step flow es ev)"
  by (cases ev) (simp_all add: gate_step_def gate_inv_queue gate_inv_finish)

lemma gate_inv_run: "gate_inv (gate_run flow evs)"
  by (induction evs rule: rev_induct)
     (simp_all add: gate_run_def gate_inv_step, simp add: gate_inv_def in_progress_def waiting_def)

text \<open>
  Claim C1. Along every sequence of runs being queued and finishing, in whatever order,
  at most one run of a group (the group \<^verbatim>\<open>pages\<close> for this workflow) is in progress
  at any moment, and a run waits only while another is in progress. When the run in
  progress finishes, the run that waits starts, and nothing waits any more; when nothing
  waits, the group is free again.
\<close>

theorem one_deployment_in_flight:
  "length (in_progress g (gate_run workflow evs)) \<le> 1 \<and>
   (waiting g (gate_run workflow evs) \<noteq> [] \<longrightarrow> in_progress g (gate_run workflow evs) \<noteq> []) \<and>
   (r \<in> set (in_progress g (gate_run workflow evs)) \<and> p \<in> set (waiting g (gate_run workflow evs)) \<longrightarrow>
      in_progress g (gate_run workflow (evs @ [Finish r])) = [p] \<and>
      waiting g (gate_run workflow (evs @ [Finish r])) = []) \<and>
   (r \<in> set (in_progress g (gate_run workflow evs)) \<and> waiting g (gate_run workflow evs) = [] \<longrightarrow>
      in_progress g (gate_run workflow (evs @ [Finish r])) = [])"
proof -
  let ?es = "gate_run workflow evs"
  have inv: "gate_inv ?es" by (rule gate_inv_run)
  have len: "length (in_progress g ?es) \<le> 1" and lenw: "length (waiting g ?es) \<le> 1"
    and live: "in_progress g ?es = [] \<longrightarrow> waiting g ?es = []"
    using inv by (simp_all add: gate_inv_def)
  have step: "gate_run workflow (evs @ [Finish r]) = finish r ?es"
    by (simp add: gate_run_def gate_step_def)
  have rel: "in_progress g (finish r ?es) = waiting g ?es \<and> waiting g (finish r ?es) = []"
    if mem: "r \<in> set (in_progress g ?es)"
  proof -
    have ip: "in_progress g ?es = [r]" by (rule short_list [OF len mem])
    obtain e0 where f: "find (\<lambda>e. run_id e = r \<and> phase e = InProgress) ?es = Some e0"
      using mem by (cases "find (\<lambda>e. run_id e = r \<and> phase e = InProgress) ?es")
        (auto simp: find_None_iff in_progress_def)
    have "grp e0 = g"
      using one_group [OF _ find_in_progress [OF f] mem] inv by (simp add: gate_inv_def)
    then have fin: "finish r ?es = promote g (complete r ?es)"
      by (simp add: finish_def f)
    have none: "in_progress g (complete r ?es) = []"
      by (simp add: in_progress_complete ip)
    show ?thesis
    proof (cases "waiting g ?es")
      case Nil
      then show ?thesis using none by (simp add: fin promote_none waiting_complete)
    next
      case (Cons q qs)
      then have "qs = []" using lenw by simp
      with Cons promote_some [OF none, of q qs] show ?thesis
        by (simp add: fin waiting_complete)
    qed
  qed
  have a: "in_progress g (finish r ?es) = [p] \<and> waiting g (finish r ?es) = []"
    if "r \<in> set (in_progress g ?es)" "p \<in> set (waiting g ?es)"
    using rel [OF that(1)] short_list [OF lenw that(2)] by simp
  have b: "in_progress g (finish r ?es) = []"
    if "r \<in> set (in_progress g ?es)" "waiting g ?es = []"
    using rel [OF that(1)] that(2) by simp
  show ?thesis using len live a b unfolding step by blast
qed

theorem one_deployment_in_flight_witness:
  "in_progress ''pages'' (gate_run workflow [Queue 1, Queue 2, Queue 3]) = [1] \<and>
   waiting ''pages'' (gate_run workflow [Queue 1, Queue 2, Queue 3]) = [3] \<and>
   in_progress ''pages'' (gate_run workflow [Queue 1, Queue 2, Queue 3, Finish 1]) = [3] \<and>
   waiting ''pages'' (gate_run workflow [Queue 1, Queue 2, Queue 3, Finish 1]) = []"
proof -
  have a: "in_progress ''pages'' (gate_run workflow [Queue 1, Queue 2, Queue 3]) = [1]"
    by code_simp
  have b: "waiting ''pages'' (gate_run workflow [Queue 1, Queue 2, Queue 3]) = [3]"
    by code_simp
  from one_deployment_in_flight [of "''pages''" "[Queue 1, Queue 2, Queue 3]" 1 3] a b
  show ?thesis by simp
qed

lemma phase_of_append:
  "phase_of (es @ [e]) r = (case phase_of es r of None \<Rightarrow> (if run_id e = r then Some (phase e) else None) | Some ph \<Rightarrow> Some ph)"
  by (induction es) (auto simp: phase_of_def)

lemma found_id: "find (\<lambda>e. run_id e = r) es = Some e \<Longrightarrow> run_id e = r"
  by (induction es) (auto split: if_splits)

lemma phase_of_None: "(phase_of es r = None) = (find (\<lambda>e. run_id e = r) es = None)"
  by (simp add: phase_of_def)

lemma workflow_group: "concurrency_group workflow = ''pages''"
  by (simp add: workflow_def)

lemma workflow_keeps_running: "cancel_in_progress workflow = False"
  by (simp add: workflow_def)

lemma phase_of_cancel_where:
  "phase_of (cancel_where P es) r =
     map_option (\<lambda>e. if P e then Cancelled else phase e) (find (\<lambda>e. run_id e = r) es)"
  by (induction es) (auto simp: phase_of_def cancel_where_def)

lemma phase_of_complete:
  "phase_of (complete r' es) r =
     map_option (\<lambda>e. if run_id e = r' \<and> phase e = InProgress then Completed else phase e)
       (find (\<lambda>e. run_id e = r) es)"
  by (induction es) (auto simp: phase_of_def complete_def)

lemma phase_of_promote:
  "phase_of es r = Some ph \<Longrightarrow>
     phase_of (promote g es) r = Some ph \<or> (ph = Pending \<and> phase_of (promote g es) r = Some InProgress)"
  by (induction es) (auto simp: phase_of_def)

lemma find_self:
  "phase_of es r = Some InProgress \<Longrightarrow> find (\<lambda>e. run_id e = r \<and> phase e = InProgress) es \<noteq> None"
  by (induction es) (auto simp: phase_of_def split: if_splits)

lemma in_progress_step:
  assumes "phase_of es r = Some InProgress" and "ev \<noteq> Finish r"
  shows "phase_of (gate_step workflow es ev) r = Some InProgress"
proof (cases ev)
  case (Queue r')
  from assms(1) obtain e where e: "find (\<lambda>e. run_id e = r) es = Some e" "phase e = InProgress"
    by (auto simp: phase_of_def)
  then have "phase_of (cancel_where (\<lambda>e. grp e = ''pages'' \<and> phase e = Pending) es) r = Some InProgress"
    by (simp add: phase_of_cancel_where)
  with assms(1) show ?thesis
    by (simp add: Queue gate_step_def queue_run_def Let_def workflow_group
        workflow_keeps_running phase_of_append)
next
  case (Finish r')
  with assms(2) have ne: "r' \<noteq> r" by simp
  show ?thesis
  proof (cases "find (\<lambda>e. run_id e = r' \<and> phase e = InProgress) es")
    case None
    then show ?thesis using assms(1) by (simp add: Finish gate_step_def finish_def)
  next
    case (Some e0)
    from assms(1) obtain e where "find (\<lambda>e. run_id e = r) es = Some e" "phase e = InProgress"
      by (auto simp: phase_of_def)
    with ne have "phase_of (complete r' es) r = Some InProgress"
      by (auto simp: phase_of_complete dest: found_id)
    from phase_of_promote [OF this, of "grp e0"] show ?thesis
      by (simp add: Finish gate_step_def finish_def Some)
  qed
qed

lemma in_progress_finish:
  assumes "phase_of es r = Some InProgress"
  shows "phase_of (gate_step workflow es (Finish r)) r = Some Completed"
proof -
  from find_self [OF assms] obtain e0 where
    f: "find (\<lambda>e. run_id e = r \<and> phase e = InProgress) es = Some e0" by auto
  from assms obtain e where "find (\<lambda>e. run_id e = r) es = Some e" "phase e = InProgress"
    by (auto simp: phase_of_def)
  then have "phase_of (complete r es) r = Some Completed"
    by (auto simp: phase_of_complete dest: found_id)
  from phase_of_promote [OF this, of "grp e0"] show ?thesis
    by (simp add: gate_step_def finish_def f)
qed

text \<open>
  Claim C2. A run that is in progress stays in progress whatever else happens: runs
  queued after it, and other runs finishing, neither cancel it nor put it back to an
  earlier phase. It leaves that phase only by finishing, and is then completed.
\<close>

theorem in_progress_runs_to_completion:
  "phase_of es r = Some InProgress \<and> Finish r \<notin> set evs \<longrightarrow>
     phase_of (foldl (gate_step workflow) es evs) r = Some InProgress \<and>
     phase_of (foldl (gate_step workflow) es (evs @ [Finish r])) r = Some Completed"
proof (intro impI, elim conjE)
  assume a: "phase_of es r = Some InProgress" and b: "Finish r \<notin> set evs"
  have "phase_of (foldl (gate_step workflow) es evs) r = Some InProgress"
    using a b by (induction evs arbitrary: es) (auto simp: in_progress_step)
  then show "phase_of (foldl (gate_step workflow) es evs) r = Some InProgress \<and>
     phase_of (foldl (gate_step workflow) es (evs @ [Finish r])) r = Some Completed"
    by (simp add: in_progress_finish)
qed

theorem in_progress_runs_to_completion_witness:
  "phase_of (gate_run workflow [Queue 1]) 1 = Some InProgress \<and>
   phase_of (gate_run workflow [Queue 1, Queue 2, Queue 3]) 1 = Some InProgress \<and>
   phase_of (gate_run workflow [Queue 1, Queue 2, Queue 3, Finish 1]) 1 = Some Completed"
proof -
  have a: "phase_of (gate_run workflow [Queue 1]) 1 = Some InProgress"
    by code_simp
  from in_progress_runs_to_completion [of "gate_run workflow [Queue 1]" 1 "[Queue 2, Queue 3]"] a
  show ?thesis by (simp add: gate_run_def)
qed

text \<open>
  Claim C3 says that a queued run is never removed from the queue except by being
  granted its turn. The workflow's comment says otherwise, and so does the gate: with
  run 1 in progress and run 2 waiting, queueing run 3 cancels run 2.
\<close>

theorem queued_run_dropped:
  "phase_of (gate_run workflow [Queue 1, Queue 2]) 2 = Some Pending \<and>
   phase_of (gate_run workflow [Queue 1, Queue 2, Queue 3]) 2 = Some Cancelled"
  by code_simp

text \<open>
  Claim C3, amended. A waiting run leaves the queue in one of two ways only: it is
  granted its turn, or a run that the gate has not seen before is queued behind the same
  run in progress and takes its place in the queue (the older run is cancelled and the
  newer one waits). Under every other event the waiting run keeps waiting.
\<close>

theorem queued_run_leaves_queue:
  "phase_of es r = Some Pending \<longrightarrow>
     phase_of (gate_step workflow es ev) r = Some Pending \<or>
     phase_of (gate_step workflow es ev) r = Some InProgress \<or>
     (phase_of (gate_step workflow es ev) r = Some Cancelled \<and>
      (\<exists>r'. ev = Queue r' \<and> phase_of es r' = None \<and>
            phase_of (gate_step workflow es ev) r' = Some Pending))"
proof
  assume a: "phase_of es r = Some Pending"
  then obtain e where e: "find (\<lambda>e. run_id e = r) es = Some e" "phase e = Pending"
    by (auto simp: phase_of_def)
  show "phase_of (gate_step workflow es ev) r = Some Pending \<or>
     phase_of (gate_step workflow es ev) r = Some InProgress \<or>
     (phase_of (gate_step workflow es ev) r = Some Cancelled \<and>
      (\<exists>r'. ev = Queue r' \<and> phase_of es r' = None \<and>
            phase_of (gate_step workflow es ev) r' = Some Pending))"
  proof (cases ev)
    case (Queue r')
    have ex: "list_ex (\<lambda>e. run_id e = r') es = (phase_of es r' \<noteq> None)"
      by (induction es) (auto simp: phase_of_def)
    show ?thesis
      using a e
      by (auto simp: Queue gate_step_def queue_run_def Let_def workflow_group
          workflow_keeps_running phase_of_append phase_of_cancel_where ex phase_of_None)
  next
    case (Finish r')
    show ?thesis
    proof (cases "find (\<lambda>e. run_id e = r' \<and> phase e = InProgress) es")
      case None
      then show ?thesis using a by (simp add: Finish gate_step_def finish_def)
    next
      case (Some e0)
      from e have "phase_of (complete r' es) r = Some Pending"
        by (simp add: phase_of_complete)
      from phase_of_promote [OF this, of "grp e0"] show ?thesis
        by (auto simp: Finish gate_step_def finish_def Some)
    qed
  qed
qed

theorem queued_run_leaves_queue_witness:
  "phase_of (gate_run workflow [Queue 1, Queue 2]) 2 = Some Pending \<and>
   phase_of (gate_run workflow [Queue 1, Queue 2, Finish 1]) 2 = Some InProgress"
proof -
  have a: "phase_of (gate_run workflow [Queue 1, Queue 2]) 2 = Some Pending"
    by code_simp
  have b: "phase_of (gate_run workflow [Queue 1, Queue 2, Finish 1]) 2 \<noteq> Some Pending"
    by code_simp
  from queued_run_leaves_queue [of "gate_run workflow [Queue 1, Queue 2]" 2 "Finish 1"] a b
  show ?thesis by (simp add: gate_run_def)
qed

section \<open>The stage executor: first failure stops the list\<close>

lemma run_stages_shape:
  "run_stages ct amb fs cs = (rs, fs') \<Longrightarrow>
     map sr_stage rs = take (length rs) cs \<and>
     (\<forall>i. Suc i < length rs \<longrightarrow> sr_exit (rs ! i) = 0) \<and>
     ((\<forall>r \<in> set rs. sr_exit r = 0) \<longrightarrow> length rs = length cs)"
proof (induction cs arbitrary: fs rs fs')
  case Nil
  then show ?case by simp
next
  case (Cons c cs)
  obtain r f1 where rc: "run_command ct amb fs c = (r, f1)" by (cases "run_command ct amb fs c")
  have st: "sr_stage r = c"
    using rc by (auto simp: run_command_def Let_def split: option.splits prod.splits)
  show ?case
  proof (cases "sr_exit r = 0")
    case False
    with Cons.prems rc have "rs = [r]" by auto
    with False st show ?thesis by simp
  next
    case True
    obtain rs1 f2 where rest: "run_stages ct amb f1 cs = (rs1, f2)"
      by (cases "run_stages ct amb f1 cs")
    with Cons.prems rc True have rs: "rs = r # rs1" by auto
    from Cons.IH [OF rest] have ih: "map sr_stage rs1 = take (length rs1) cs"
      "\<forall>i. Suc i < length rs1 \<longrightarrow> sr_exit (rs1 ! i) = 0"
      "(\<forall>r \<in> set rs1. sr_exit r = 0) \<longrightarrow> length rs1 = length cs" by auto
    have "\<forall>i. Suc i < length rs \<longrightarrow> sr_exit (rs ! i) = 0"
    proof (intro allI impI)
      fix i assume "Suc i < length rs"
      then show "sr_exit (rs ! i) = 0"
        using ih(2) True rs by (cases i) auto
    qed
    with ih(1,3) st rs show ?thesis by simp
  qed
qed

lemma result_at_0: "result_at ct amb fs (c # cs) 0 = fst (run_command ct amb fs c)"
  by (simp add: result_at_def)

lemma result_at_Suc:
  "result_at ct amb fs (c # cs) (Suc i) = result_at ct amb (snd (run_command ct amb fs c)) cs i"
  by (simp add: result_at_def)

lemma run_stages_chain:
  "run_stages ct amb fs cs = (rs, fs') \<Longrightarrow>
     length rs \<le> length cs \<and>
     (\<forall>i. i < length rs \<longrightarrow> rs ! i = result_at ct amb fs cs i) \<and>
     fs' = workspace_after ct amb fs cs (length rs)"
proof (induction cs arbitrary: fs rs fs')
  case Nil
  then show ?case by simp
next
  case (Cons c cs)
  obtain r f1 where rc: "run_command ct amb fs c = (r, f1)" by (cases "run_command ct amb fs c")
  show ?case
  proof (cases "sr_exit r = 0")
    case False
    with Cons.prems rc have "rs = [r]" "fs' = f1" by auto
    with rc show ?thesis by (simp add: result_at_0)
  next
    case True
    obtain rs1 f2 where rest: "run_stages ct amb f1 cs = (rs1, f2)"
      by (cases "run_stages ct amb f1 cs")
    with Cons.prems rc True have rs: "rs = r # rs1" and f: "fs' = f2" by auto
    from Cons.IH [OF rest] have ih: "length rs1 \<le> length cs"
      "\<forall>i. i < length rs1 \<longrightarrow> rs1 ! i = result_at ct amb f1 cs i"
      "f2 = workspace_after ct amb f1 cs (length rs1)" by auto
    have "\<forall>i. i < length rs \<longrightarrow> rs ! i = result_at ct amb fs (c # cs) i"
    proof (intro allI impI)
      fix i assume "i < length rs"
      then show "rs ! i = result_at ct amb fs (c # cs) i"
        using ih(2) rc rs by (cases i) (simp_all add: result_at_0 result_at_Suc)
    qed
    with ih(1,3) rc show ?thesis by (simp add: rs f)
  qed
qed

lemma build_script_run:
  assumes "run_stages ct amb fs build_script = (rs, fs')"
  shows "(build_script ! 1 \<in> set (map sr_stage rs)) =
          (sr_exit (fst (run_command ct amb fs (build_script ! 0))) = 0) \<and>
        (sr_exit (fst (run_command ct amb fs (build_script ! 0))) \<noteq> 0 \<longrightarrow>
           rs = [fst (run_command ct amb fs (build_script ! 0))] \<and>
           fs' = snd (run_command ct amb fs (build_script ! 0)))"
proof -
  let ?c0 = "build_script ! 0" and ?c1 = "build_script ! 1"
  have bs: "build_script = [?c0, ?c1]" by (simp add: build_script_def)
  have ne: "?c1 \<noteq> ?c0" by (simp add: build_script_def)
  obtain r f1 where rc: "run_command ct amb fs ?c0 = (r, f1)"
    by (cases "run_command ct amb fs ?c0")
  have st0: "sr_stage r = ?c0"
    using rc by (auto simp: run_command_def Let_def split: option.splits prod.splits)
  show ?thesis
  proof (cases "sr_exit r = 0")
    case False
    from assms have "run_stages ct amb fs [?c0, ?c1] = (rs, fs')" using bs by simp
    with rc False have "rs = [r]" "fs' = f1" by auto
    with rc False st0 ne show ?thesis by simp
  next
    case True
    obtain r1 f2 where rc1: "run_command ct amb f1 ?c1 = (r1, f2)"
      by (cases "run_command ct amb f1 ?c1")
    have st1: "sr_stage r1 = ?c1"
      using rc1 by (auto simp: run_command_def Let_def split: option.splits prod.splits)
    from assms have "run_stages ct amb fs [?c0, ?c1] = (rs, fs')" using bs by simp
    with rc rc1 True have "rs = [r, r1]" by (auto split: if_splits)
    with rc True st1 show ?thesis by simp
  qed
qed

text \<open>
  Claim C4. For every stage list, container, ambient environment and workspace: the
  result at each position is the one its command gave when run in the workspace the
  stages before it left (its exit status and output), and the workspace returned is the
  one left by the last stage that ran, so no later stage ran. The stages that ran are an
  initial segment of the list and every result but the last has status zero. If the
  stage at position \<open>k\<close> (counting from zero) is the first whose command exits non-zero,
  the list has exactly \<open>k + 1\<close> entries, the last being that stage's result; if no
  command exits non-zero, every stage ran. In the build script,
  \<^verbatim>\<open>npm run build:prod\<close> ran exactly when \<^verbatim>\<open>npm install\<close> exited with status zero,
  and a failing \<^verbatim>\<open>npm install\<close> leaves its own result and workspace only.
\<close>

theorem first_failure_stops:
  "run_stages ct amb fs cs = (rs, fs') \<longrightarrow>
     length rs \<le> length cs \<and>
     (\<forall>i. i < length rs \<longrightarrow> rs ! i = result_at ct amb fs cs i) \<and>
     fs' = workspace_after ct amb fs cs (length rs) \<and>
     map sr_stage rs = take (length rs) cs \<and>
     (\<forall>i. Suc i < length rs \<longrightarrow> sr_exit (rs ! i) = 0) \<and>
     (k < length rs \<and> sr_exit (rs ! k) \<noteq> 0 \<longrightarrow> length rs = Suc k) \<and>
     ((\<forall>r \<in> set rs. sr_exit r = 0) \<longrightarrow> length rs = length cs) \<and>
     (k < length cs \<and> sr_exit (result_at ct amb fs cs k) \<noteq> 0 \<and>
      (\<forall>i. i < k \<longrightarrow> sr_exit (result_at ct amb fs cs i) = 0) \<longrightarrow>
        length rs = Suc k \<and> rs ! k = result_at ct amb fs cs k \<and>
        fs' = workspace_after ct amb fs cs (Suc k)) \<and>
     ((\<forall>i. i < length cs \<longrightarrow> sr_exit (result_at ct amb fs cs i) = 0) \<longrightarrow>
        length rs = length cs) \<and>
     (cs = build_script \<longrightarrow>
        (build_script ! 1 \<in> set (map sr_stage rs)) =
          (sr_exit (fst (run_command ct amb fs (build_script ! 0))) = 0) \<and>
        (sr_exit (fst (run_command ct amb fs (build_script ! 0))) \<noteq> 0 \<longrightarrow>
           rs = [fst (run_command ct amb fs (build_script ! 0))] \<and>
           fs' = snd (run_command ct amb fs (build_script ! 0))))"
proof
  assume a: "run_stages ct amb fs cs = (rs, fs')"
  note sh = run_stages_shape [OF a]
  note ch = run_stages_chain [OF a]
  have c1: "length rs \<le> length cs" using ch by simp
  have c2: "\<forall>i. i < length rs \<longrightarrow> rs ! i = result_at ct amb fs cs i" using ch by simp
  have c3: "fs' = workspace_after ct amb fs cs (length rs)" using ch by simp
  have c4: "map sr_stage rs = take (length rs) cs" using sh by simp
  have c5: "\<forall>i. Suc i < length rs \<longrightarrow> sr_exit (rs ! i) = 0" using sh by simp
  have c7: "(\<forall>r \<in> set rs. sr_exit r = 0) \<longrightarrow> length rs = length cs" using sh by simp
  have k: "length rs = Suc j" if "j < length rs" "sr_exit (rs ! j) \<noteq> 0" for j
  proof (rule ccontr)
    assume "length rs \<noteq> Suc j"
    with that(1) have "Suc j < length rs" by simp
    with c5 that(2) show False by auto
  qed
  then have c6: "k < length rs \<and> sr_exit (rs ! k) \<noteq> 0 \<longrightarrow> length rs = Suc k" by simp
  have all: "length rs = length cs"
    if z: "\<forall>i. i < length rs \<longrightarrow> sr_exit (result_at ct amb fs cs i) = 0"
  proof -
    have "\<forall>r \<in> set rs. sr_exit r = 0"
    proof
      fix y assume "y \<in> set rs"
      then obtain i where "i < length rs" "rs ! i = y" by (auto simp: in_set_conv_nth)
      with c2 z show "sr_exit y = 0" by auto
    qed
    with c7 show ?thesis by simp
  qed
  have c8: "k < length cs \<and> sr_exit (result_at ct amb fs cs k) \<noteq> 0 \<and>
      (\<forall>i. i < k \<longrightarrow> sr_exit (result_at ct amb fs cs i) = 0) \<longrightarrow>
        length rs = Suc k \<and> rs ! k = result_at ct amb fs cs k \<and>
        fs' = workspace_after ct amb fs cs (Suc k)"
  proof (intro impI, elim conjE)
    assume kc: "k < length cs" and bad: "sr_exit (result_at ct amb fs cs k) \<noteq> 0"
      and good: "\<forall>i. i < k \<longrightarrow> sr_exit (result_at ct amb fs cs i) = 0"
    have kr: "k < length rs"
    proof (rule ccontr)
      assume n: "\<not> k < length rs"
      then have "\<forall>i. i < length rs \<longrightarrow> sr_exit (result_at ct amb fs cs i) = 0"
        using good by auto
      from all [OF this] kc n show False by simp
    qed
    with c2 have e: "rs ! k = result_at ct amb fs cs k" by simp
    with kr bad have l: "length rs = Suc k" using k [of k] by simp
    from l e c3 show "length rs = Suc k \<and> rs ! k = result_at ct amb fs cs k \<and>
        fs' = workspace_after ct amb fs cs (Suc k)" by simp
  qed
  have c9: "(\<forall>i. i < length cs \<longrightarrow> sr_exit (result_at ct amb fs cs i) = 0) \<longrightarrow>
        length rs = length cs"
    using all c1 by auto
  have c10: "cs = build_script \<longrightarrow>
        (build_script ! 1 \<in> set (map sr_stage rs)) =
          (sr_exit (fst (run_command ct amb fs (build_script ! 0))) = 0) \<and>
        (sr_exit (fst (run_command ct amb fs (build_script ! 0))) \<noteq> 0 \<longrightarrow>
           rs = [fst (run_command ct amb fs (build_script ! 0))] \<and>
           fs' = snd (run_command ct amb fs (build_script ! 0)))"
    using a build_script_run by blast
  show "length rs \<le> length cs \<and>
     (\<forall>i. i < length rs \<longrightarrow> rs ! i = result_at ct amb fs cs i) \<and>
     fs' = workspace_after ct amb fs cs (length rs) \<and>
     map sr_stage rs = take (length rs) cs \<and>
     (\<forall>i. Suc i < length rs \<longrightarrow> sr_exit (rs ! i) = 0) \<and>
     (k < length rs \<and> sr_exit (rs ! k) \<noteq> 0 \<longrightarrow> length rs = Suc k) \<and>
     ((\<forall>r \<in> set rs. sr_exit r = 0) \<longrightarrow> length rs = length cs) \<and>
     (k < length cs \<and> sr_exit (result_at ct amb fs cs k) \<noteq> 0 \<and>
      (\<forall>i. i < k \<longrightarrow> sr_exit (result_at ct amb fs cs i) = 0) \<longrightarrow>
        length rs = Suc k \<and> rs ! k = result_at ct amb fs cs k \<and>
        fs' = workspace_after ct amb fs cs (Suc k)) \<and>
     ((\<forall>i. i < length cs \<longrightarrow> sr_exit (result_at ct amb fs cs i) = 0) \<longrightarrow>
        length rs = length cs) \<and>
     (cs = build_script \<longrightarrow>
        (build_script ! 1 \<in> set (map sr_stage rs)) =
          (sr_exit (fst (run_command ct amb fs (build_script ! 0))) = 0) \<and>
        (sr_exit (fst (run_command ct amb fs (build_script ! 0))) \<noteq> 0 \<longrightarrow>
           rs = [fst (run_command ct amb fs (build_script ! 0))] \<and>
           fs' = snd (run_command ct amb fs (build_script ! 0))))"
    by (intro conjI c1 c2 c3 c4 c5 c6 c7 c8 c9 c10)
qed


theorem first_failure_stops_witness:
  "sr_exit (result_at failing_build [''PATH'' \<mapsto> ''/usr/local/bin''] no_files build_script 0) = 0 \<and>
   sr_exit (result_at failing_build [''PATH'' \<mapsto> ''/usr/local/bin''] no_files build_script 1) = 3 \<and>
   length (fst (run_stages failing_build [''PATH'' \<mapsto> ''/usr/local/bin''] no_files build_script)) = 2 \<and>
   fst (run_stages failing_build [''PATH'' \<mapsto> ''/usr/local/bin''] no_files build_script) ! 1 =
     result_at failing_build [''PATH'' \<mapsto> ''/usr/local/bin''] no_files build_script 1 \<and>
   snd (run_stages failing_build [''PATH'' \<mapsto> ''/usr/local/bin''] no_files build_script) =
     workspace_after failing_build [''PATH'' \<mapsto> ''/usr/local/bin''] no_files build_script 2"
proof -
  let ?e = "[''PATH'' \<mapsto> ''/usr/local/bin'']"
  let ?run = "run_stages failing_build ?e no_files build_script"
  have a0: "sr_exit (result_at failing_build ?e no_files build_script 0) = 0"
    by code_simp
  have a1: "sr_exit (result_at failing_build ?e no_files build_script 1) = 3"
    by code_simp
  have l: "(1::nat) < length build_script"
    by (simp add: build_script_def)
  have g: "\<forall>i. i < (1::nat) \<longrightarrow> sr_exit (result_at failing_build ?e no_files build_script i) = 0"
    using a0 by simp
  have r: "?run = (fst ?run, snd ?run)" by (rule prod.collapse [symmetric])
  note t = first_failure_stops [of failing_build ?e no_files build_script "fst ?run" "snd ?run" 1,
      THEN mp, OF r]
  from t have "1 < length build_script \<and>
      sr_exit (result_at failing_build ?e no_files build_script 1) \<noteq> 0 \<and>
      (\<forall>i. i < 1 \<longrightarrow> sr_exit (result_at failing_build ?e no_files build_script i) = 0) \<longrightarrow>
        length (fst ?run) = Suc 1 \<and>
        fst ?run ! 1 = result_at failing_build ?e no_files build_script 1 \<and>
        snd ?run = workspace_after failing_build ?e no_files build_script (Suc 1)"
    by (elim conjE)
  with l a1 g
  have "length (fst ?run) = Suc 1 \<and>
        fst ?run ! 1 = result_at failing_build ?e no_files build_script 1 \<and>
        snd ?run = workspace_after failing_build ?e no_files build_script (Suc 1)"
    by simp
  with a0 a1 show ?thesis by (simp add: numeral_2_eq_2)
qed

section \<open>The stage executor: overrides over the ambient environment\<close>

lemma assign_all_merge: "assign_all e as = e ++ overrides_from e as"
proof (induction as arbitrary: e)
  case Nil
  then show ?case by simp
next
  case (Cons a as)
  obtain k w where a: "a = (k, w)" by (cases a)
  have "e(k \<mapsto> expand e w) = e ++ [k \<mapsto> expand e w]" by simp
  then show ?case
    unfolding a by (simp add: Cons.IH map_add_assoc del: map_add_upd)
qed

lemma dom_overrides_from: "dom (overrides_from e as) = fst ` set as"
proof (induction as arbitrary: e)
  case Nil
  then show ?case by simp
next
  case (Cons a as)
  obtain k w where a: "a = (k, w)" by (cases a)
  have "dom ([k \<mapsto> expand e w] ++ overrides_from (e(k \<mapsto> expand e w)) as) =
          insert k (fst ` set as)"
    unfolding dom_map_add Cons.IH by simp
  then show ?case by (simp add: a)
qed

text \<open>
  Claim C7. The environment a stage's command receives is the ambient environment with the
  stage's declared overrides merged over it: a declared name has its declared value, every
  other name its ambient value. For the build stage, \<^verbatim>\<open>NODE_ENV\<close> is
  \<^verbatim>\<open>production\<close> and \<^verbatim>\<open>PATH\<close> is \<^verbatim>\<open>$HOME/.cargo/bin\<close> followed by the ambient
  \<^verbatim>\<open>PATH\<close>, whatever the image baked in; \<^verbatim>\<open>npm install\<close>, which declares
  nothing, receives the ambient environment unchanged.
\<close>

theorem overrides_win:
  "stage_env amb c = amb ++ overrides amb c \<and>
   dom (overrides amb c) = fst ` set (assigns c) \<and>
   (overrides amb c k = Some v \<longrightarrow> stage_env amb c k = Some v) \<and>
   (overrides amb c k = None \<longrightarrow> stage_env amb c k = amb k) \<and>
   (resolve (has_exe ct) (stage_env amb c) (prog c) = Some p \<longrightarrow>
      run_command ct amb fs c =
        (case exec ct p (args c) (amb ++ overrides amb c) fs of
           (x, out, fs') \<Rightarrow> (\<lparr>sr_stage = c, sr_exit = x, sr_output = out\<rparr>, fs'))) \<and>
   stage_env amb (build_script ! 0) = amb \<and>
   stage_env amb (build_script ! 1) =
     amb(''PATH'' \<mapsto> expand amb [Var ''HOME''] @ ''/.cargo/bin:'' @ expand amb [Var ''PATH''],
         ''NODE_ENV'' \<mapsto> ''production'')"
proof -
  have m: "stage_env amb c = amb ++ overrides amb c"
    by (simp add: stage_env_def overrides_def assign_all_merge)
  have d: "dom (overrides amb c) = fst ` set (assigns c)"
    by (simp add: overrides_def dom_overrides_from)
  have r: "run_command ct amb fs c =
        (case exec ct p (args c) (amb ++ overrides amb c) fs of
           (x, out, fs') \<Rightarrow> (\<lparr>sr_stage = c, sr_exit = x, sr_output = out\<rparr>, fs'))"
    if "resolve (has_exe ct) (stage_env amb c) (prog c) = Some p"
    using that by (simp add: run_command_def Let_def m [symmetric])
  have b0: "stage_env amb (build_script ! 0) = amb"
    by (simp add: build_script_def stage_env_def)
  have b1: "stage_env amb (build_script ! 1) =
     amb(''PATH'' \<mapsto> expand amb [Var ''HOME''] @ ''/.cargo/bin:'' @ expand amb [Var ''PATH''],
         ''NODE_ENV'' \<mapsto> ''production'')"
    by (simp add: build_script_def stage_env_def expand_def)
  show ?thesis using m d r b0 b1 by (auto simp: map_add_def)
qed

theorem overrides_win_witness:
  "baked_env ''NODE_ENV'' = Some ''development'' \<and>
   overrides baked_env (build_script ! 1) ''NODE_ENV'' = Some ''production'' \<and>
   stage_env baked_env (build_script ! 1) ''NODE_ENV'' = Some ''production'' \<and>
   stage_env baked_env (build_script ! 1) ''PATH'' =
     Some ''/root/.cargo/bin:/usr/local/bin:/.cargo/bin''"
proof -
  have a: "baked_env ''NODE_ENV'' = Some ''development''"
    by (simp add: baked_env_def)
  have b: "overrides baked_env (build_script ! 1) ''NODE_ENV'' = Some ''production''"
    by (simp add: overrides_def build_script_def expand_def)
  have c: "overrides baked_env (build_script ! 1) ''PATH'' =
             Some ''/root/.cargo/bin:/usr/local/bin:/.cargo/bin''"
    by (simp add: overrides_def build_script_def expand_def baked_env_def)
  from overrides_win [where amb = baked_env and c = "build_script ! 1" and k = "''NODE_ENV''"
      and v = "''production''"] b
  have d: "stage_env baked_env (build_script ! 1) ''NODE_ENV'' = Some ''production''" by blast
  from overrides_win [where amb = baked_env and c = "build_script ! 1" and k = "''PATH''"
      and v = "''/root/.cargo/bin:/usr/local/bin:/.cargo/bin''"] c
  have e: "stage_env baked_env (build_script ! 1) ''PATH'' =
             Some ''/root/.cargo/bin:/usr/local/bin:/.cargo/bin''" by blast
  from a b d e show ?thesis by blast
qed

section \<open>The two image descriptions\<close>

lemma split_on_nonempty: "split_on c s \<noteq> []"
  by (induction s) (auto split: list.splits)

lemma split_on_append: "split_on c (a @ c # b) = split_on c a @ split_on c b"
proof (induction a)
  case Nil
  then show ?case by simp
next
  case (Cons x a)
  obtain s ss where "split_on c a = s # ss"
    using split_on_nonempty [of c a] by (cases "split_on c a") auto
  with Cons show ?case by simp
qed

lemma find_app:
  "find P (xs @ ys) = (case find P xs of None \<Rightarrow> find P ys | Some x \<Rightarrow> Some x)"
  by (induction xs) auto

lemma find_none: "\<not> list_ex P xs \<Longrightarrow> find P xs = None"
  by (induction xs) auto

lemma find_swap:
  "\<not> (list_ex P xs \<and> list_ex P ys) \<Longrightarrow> find P (xs @ ys) = find P (ys @ xs)"
  by (auto simp: find_app find_none split: option.splits)

lemma find_swap_after:
  "\<not> (list_ex P xs \<and> list_ex P ys) \<Longrightarrow> find P (zs @ xs @ ys) = find P (zs @ ys @ xs)"
  using find_swap [of P xs ys] by (simp add: find_app [of P zs] split: option.split)

lemma provision_Dockerfile:
  "provision b Dockerfile =
     (case pull b ''node:latest'' of
        None \<Rightarrow> None
      | Some e0 \<Rightarrow>
          if run_ok b e0 ''apt-get update && apt-get install -y build-essential'' \<and>
             run_ok b e0 ''curl --proto '=https' --tlsv1.2 -sSf https://sh.rustup.rs | sh -s -- -y''
          then Some (e0(''PATH'' \<mapsto> expand e0 [Var ''PATH''] @ '':'' @ expand e0 [Var ''HOME''] @ ''/.cargo/bin''))
          else None)"
  by (simp add: provision_def Dockerfile_def expand_def split: option.splits)

lemma provision_variant:
  "provision b Dockerfile_variant =
     (case pull b ''node:latest'' of
        None \<Rightarrow> None
      | Some e0 \<Rightarrow>
          if run_ok b e0 ''apt-get update && apt-get install -y build-essential'' \<and>
             run_ok b e0 ''curl --proto '=https' --tlsv1.2 -sSf https://sh.rustup.rs | sh -s -- -y''
          then Some (e0(''PATH'' \<mapsto> expand e0 [Var ''HOME''] @ ''/.cargo/bin'' @ '':'' @ expand e0 [Var ''PATH'']))
          else None)"
  by (simp add: provision_def Dockerfile_variant_def expand_def split: option.splits)

lemma expand_blind: "Var ''PATH'' \<notin> set w \<Longrightarrow> expand (e(''PATH'' \<mapsto> p)) w = expand e w"
proof (induction w)
  case Nil
  then show ?case by (simp add: expand_def)
next
  case (Cons a w)
  then show ?case by (cases a) (auto simp: expand_def)
qed

lemma assign_all_blind:
  "\<not> list_ex (\<lambda>(k, w). k = ''PATH'' \<or> Var ''PATH'' \<in> set w) as \<Longrightarrow>
     assign_all (e(''PATH'' \<mapsto> p)) as = (assign_all e as)(''PATH'' \<mapsto> p)"
proof (induction as arbitrary: e)
  case Nil
  then show ?case by simp
next
  case (Cons a as)
  obtain k w where a: "a = (k, w)" by (cases a)
  with Cons.prems have k: "k \<noteq> ''PATH''" and w: "Var ''PATH'' \<notin> set w"
    and rest: "\<not> list_ex (\<lambda>(k, w). k = ''PATH'' \<or> Var ''PATH'' \<in> set w) as" by auto
  have tw: "(e(''PATH'' \<mapsto> p))(k \<mapsto> expand e w) = (e(k \<mapsto> expand e w))(''PATH'' \<mapsto> p)"
    using k by (rule fun_upd_twist [OF not_sym])
  have "assign_all (e(''PATH'' \<mapsto> p)) (a # as) =
          assign_all ((e(''PATH'' \<mapsto> p))(k \<mapsto> expand (e(''PATH'' \<mapsto> p)) w)) as"
    unfolding a by (rule assign_all.simps)
  also have "\<dots> = assign_all ((e(k \<mapsto> expand e w))(''PATH'' \<mapsto> p)) as"
    unfolding expand_blind [OF w] tw ..
  also have "\<dots> = (assign_all (e(k \<mapsto> expand e w)) as)(''PATH'' \<mapsto> p)"
    by (rule Cons.IH [OF rest])
  also have "\<dots> = (assign_all e (a # as))(''PATH'' \<mapsto> p)"
    unfolding a assign_all.simps ..
  finally show ?case .
qed


lemma resolve_dirs:
  assumes "path_dirs e1 = zs @ xs @ ys" and "path_dirs e2 = zs @ ys @ xs"
    and "\<not> (list_ex (\<lambda>d. has d n) xs \<and> list_ex (\<lambda>d. has d n) ys)"
  shows "resolve has e1 n = resolve has e2 n"
proof -
  have "find (\<lambda>d. has d n) (zs @ xs @ ys) = find (\<lambda>d. has d n) (zs @ ys @ xs)"
    using assms(3) by (rule find_swap_after)
  then show ?thesis by (simp add: resolve_def lookup_in_def assms(1,2))
qed

lemma run_command_blind:
  assumes "path_blind ct"
    and "stage_env e1 c = E(''PATH'' \<mapsto> q1)" and "stage_env e2 c = E(''PATH'' \<mapsto> q2)"
    and "resolve (has_exe ct) (stage_env e1 c) (prog c) = resolve (has_exe ct) (stage_env e2 c) (prog c)"
  shows "run_command ct e1 fs c = run_command ct e2 fs c"
proof -
  have "exec ct p a (E(''PATH'' \<mapsto> q1)) fs = exec ct p a (E(''PATH'' \<mapsto> q2)) fs" for p a
    using assms(1) by (simp add: path_blind_def)
  then show ?thesis
    using assms(4) unfolding run_command_def Let_def assms(2,3)
    by (simp split: option.splits)
qed

lemma path_dirs_upd: "path_dirs (e(''PATH'' \<mapsto> p)) = split_on CHR '':'' p"
  by (simp add: path_dirs_def)

lemma stage_env_blind:
  "\<not> mentions_path c \<Longrightarrow> stage_env (e(''PATH'' \<mapsto> p)) c = (stage_env e c)(''PATH'' \<mapsto> p)"
  by (simp add: mentions_path_def stage_env_def assign_all_blind)

lemma stage_env_build:
  "stage_env (e(''PATH'' \<mapsto> p)) (build_script ! 1) =
     (e(''NODE_ENV'' \<mapsto> ''production''))(''PATH'' \<mapsto> expand e [Var ''HOME''] @ ''/.cargo/bin'' @ '':'' @ p)"
  by (rule ext) (simp add: build_script_def stage_env_def expand_def)

lemma env_pair:
  assumes "\<not> mentions_path c \<or> c \<in> set build_script"
  shows "\<exists>E zs. stage_env (e0(''PATH'' \<mapsto> pA)) c = E(''PATH'' \<mapsto> concat (map (\<lambda>d. d @ '':'') zs) @ pA) \<and>
                stage_env (e0(''PATH'' \<mapsto> pB)) c = E(''PATH'' \<mapsto> concat (map (\<lambda>d. d @ '':'') zs) @ pB)"
proof (cases "mentions_path c")
  case False
  then show ?thesis
    by (intro exI [of _ "stage_env e0 c"] exI [of _ "[]"]) (simp add: stage_env_blind)
next
  case True
  with assms have "c \<in> set build_script" by simp
  moreover have "\<not> mentions_path (build_script ! 0)"
    by (simp add: build_script_def mentions_path_def)
  ultimately have c: "c = build_script ! 1"
    using True by (auto simp: build_script_def)
  show ?thesis
    unfolding c stage_env_build
    by (intro exI [of _ "e0(''NODE_ENV'' \<mapsto> ''production'')"]
        exI [of _ "[expand e0 [Var ''HOME''] @ ''/.cargo/bin'']"]) simp
qed


lemma split_on_prefixed:
  "split_on c (concat (map (\<lambda>d. d @ [c]) zs) @ p) = concat (map (split_on c) zs) @ split_on c p"
  by (induction zs) (simp_all add: split_on_append)

text \<open>
  Claim C9, amended. The two image descriptions are the same but for their fourth
  instruction, and build or fail together. The environments they produce agree on every
  variable but \<^verbatim>\<open>PATH\<close>, whose directories are those of the base image followed by
  those of \<^verbatim>\<open>$HOME/.cargo/bin\<close> in one and the other way round in the other. For a
  stage command that does not mention \<^verbatim>\<open>PATH\<close> in its own assignments, and for
  the two commands of the build script, if the command's name is not found both in the
  base image's directories and in \<^verbatim>\<open>$HOME/.cargo/bin\<close>, both environments resolve
  it to the same file; and both run it with the same result when the programs of the
  container do not depend on the value of \<^verbatim>\<open>PATH\<close>.
\<close>

theorem provisioners_agree:
  "Dockerfile[3 := i] = Dockerfile_variant[3 := i] \<and>
   (provision b Dockerfile = None) = (provision b Dockerfile_variant = None) \<and>
   (provision b Dockerfile = Some eA \<and> provision b Dockerfile_variant = Some eB \<and>
    pull b ''node:latest'' = Some e0 \<longrightarrow>
      (\<forall>v. v \<noteq> ''PATH'' \<longrightarrow> eA v = eB v) \<and>
      path_dirs eA = ambient_dirs e0 @ cargo_dirs e0 \<and>
      path_dirs eB = cargo_dirs e0 @ ambient_dirs e0 \<and>
      ((\<not> mentions_path c \<or> c \<in> set build_script) \<and>
       \<not> (list_ex (\<lambda>d. has_exe ct d (prog c)) (ambient_dirs e0) \<and>
          list_ex (\<lambda>d. has_exe ct d (prog c)) (cargo_dirs e0)) \<longrightarrow>
         resolve (has_exe ct) (stage_env eA c) (prog c) =
           resolve (has_exe ct) (stage_env eB c) (prog c) \<and>
         (path_blind ct \<longrightarrow> run_command ct eA fs c = run_command ct eB fs c)))"
proof -
  let ?P = "expand e0 [Var ''PATH'']" and ?H = "expand e0 [Var ''HOME''] @ ''/.cargo/bin''"
  let ?pA = "?P @ '':'' @ ?H" and ?pB = "?H @ '':'' @ ?P"
  have static: "Dockerfile[3 := i] = Dockerfile_variant[3 := i]"
    by (simp add: Dockerfile_def Dockerfile_variant_def)
  have both: "(provision b Dockerfile = None) = (provision b Dockerfile_variant = None)"
    by (simp add: provision_Dockerfile provision_variant split: option.splits)
  have rest: "(\<forall>v. v \<noteq> ''PATH'' \<longrightarrow> eA v = eB v) \<and>
      path_dirs eA = ambient_dirs e0 @ cargo_dirs e0 \<and>
      path_dirs eB = cargo_dirs e0 @ ambient_dirs e0 \<and>
      ((\<not> mentions_path c \<or> c \<in> set build_script) \<and>
       \<not> (list_ex (\<lambda>d. has_exe ct d (prog c)) (ambient_dirs e0) \<and>
          list_ex (\<lambda>d. has_exe ct d (prog c)) (cargo_dirs e0)) \<longrightarrow>
         resolve (has_exe ct) (stage_env eA c) (prog c) =
           resolve (has_exe ct) (stage_env eB c) (prog c) \<and>
         (path_blind ct \<longrightarrow> run_command ct eA fs c = run_command ct eB fs c))"
    if pa: "provision b Dockerfile = Some eA" and pb: "provision b Dockerfile_variant = Some eB"
      and e0: "pull b ''node:latest'' = Some e0"
  proof -
    have eA: "eA = e0(''PATH'' \<mapsto> ?pA)"
      using pa e0 by (simp add: provision_Dockerfile expand_def split: if_splits)
    have eB: "eB = e0(''PATH'' \<mapsto> ?pB)"
      using pb e0 by (simp add: provision_variant expand_def split: if_splits)
    have sA: "split_on CHR '':'' ?pA = ambient_dirs e0 @ cargo_dirs e0"
      using split_on_append [of "CHR '':''" ?P ?H] by (simp add: ambient_dirs_def cargo_dirs_def)
    have sB: "split_on CHR '':'' ?pB = cargo_dirs e0 @ ambient_dirs e0"
      using split_on_append [of "CHR '':''" ?H ?P] by (simp add: ambient_dirs_def cargo_dirs_def)
    have same: "\<forall>v. v \<noteq> ''PATH'' \<longrightarrow> eA v = eB v" by (simp add: eA eB)
    have dA: "path_dirs eA = ambient_dirs e0 @ cargo_dirs e0"
      unfolding eA path_dirs_upd by (rule sA)
    have dB: "path_dirs eB = cargo_dirs e0 @ ambient_dirs e0"
      unfolding eB path_dirs_upd by (rule sB)
    have run: "resolve (has_exe ct) (stage_env eA c) (prog c) =
           resolve (has_exe ct) (stage_env eB c) (prog c) \<and>
         (path_blind ct \<longrightarrow> run_command ct eA fs c = run_command ct eB fs c)"
      if c: "\<not> mentions_path c \<or> c \<in> set build_script"
        and n: "\<not> (list_ex (\<lambda>d. has_exe ct d (prog c)) (ambient_dirs e0) \<and>
          list_ex (\<lambda>d. has_exe ct d (prog c)) (cargo_dirs e0))"
    proof -
      from env_pair [OF c, of e0 ?pA ?pB] obtain E zs where
        a: "stage_env eA c = E(''PATH'' \<mapsto> concat (map (\<lambda>d. d @ '':'') zs) @ ?pA)" and
        b: "stage_env eB c = E(''PATH'' \<mapsto> concat (map (\<lambda>d. d @ '':'') zs) @ ?pB)"
        unfolding eA eB by blast
      let ?zs = "concat (map (split_on CHR '':'') zs)"
      have da: "path_dirs (stage_env eA c) = ?zs @ ambient_dirs e0 @ cargo_dirs e0"
        unfolding a path_dirs_upd split_on_prefixed sA ..
      have db: "path_dirs (stage_env eB c) = ?zs @ cargo_dirs e0 @ ambient_dirs e0"
        unfolding b path_dirs_upd split_on_prefixed sB ..
      have r: "resolve (has_exe ct) (stage_env eA c) (prog c) =
           resolve (has_exe ct) (stage_env eB c) (prog c)"
        by (rule resolve_dirs [where has = "has_exe ct" and n = "prog c", OF da db n])
      have "run_command ct eA fs c = run_command ct eB fs c" if "path_blind ct"
        by (rule run_command_blind [OF that a b r])
      with r show ?thesis by blast
    qed
    from same dA dB run show ?thesis by blast
  qed
  from static both rest show ?thesis by blast
qed

theorem provisioners_agree_witness:
  "provision plain_builder Dockerfile = Some [''PATH'' \<mapsto> ''/usr/local/bin:/.cargo/bin''] \<and>
   provision plain_builder Dockerfile_variant = Some [''PATH'' \<mapsto> ''/.cargo/bin:/usr/local/bin''] \<and>
   run_command quiet_box [''PATH'' \<mapsto> ''/usr/local/bin:/.cargo/bin''] no_files (build_script ! 1) =
   run_command quiet_box [''PATH'' \<mapsto> ''/.cargo/bin:/usr/local/bin''] no_files (build_script ! 1)"
proof -
  have a: "provision plain_builder Dockerfile = Some [''PATH'' \<mapsto> ''/usr/local/bin:/.cargo/bin'']"
    by (simp add: provision_Dockerfile plain_builder_def expand_def)
  have b: "provision plain_builder Dockerfile_variant = Some [''PATH'' \<mapsto> ''/.cargo/bin:/usr/local/bin'']"
    by (simp add: provision_variant plain_builder_def expand_def)
  have c: "pull plain_builder ''node:latest'' = Some [''PATH'' \<mapsto> ''/usr/local/bin'']"
    by (simp add: plain_builder_def)
  have d: "build_script ! 1 \<in> set build_script"
    by (simp add: build_script_def)
  have e: "\<not> list_ex (\<lambda>d. has_exe quiet_box d (prog (build_script ! 1))) (cargo_dirs [''PATH'' \<mapsto> ''/usr/local/bin''])"
    by (simp add: cargo_dirs_def expand_def quiet_box_def)
  have f: "path_blind quiet_box"
    by (simp add: path_blind_def quiet_box_def)
  from provisioners_agree [of _ plain_builder "[''PATH'' \<mapsto> ''/usr/local/bin:/.cargo/bin'']"
      "[''PATH'' \<mapsto> ''/.cargo/bin:/usr/local/bin'']" "[''PATH'' \<mapsto> ''/usr/local/bin'']"
      "build_script ! 1" quiet_box no_files] a b c d e f
  show ?thesis by blast
qed

text \<open>
  Claim C9 says that the two environments execute identically every stage command whose
  name is not found in both places. Two commands show otherwise, on a base image whose
  \<^verbatim>\<open>PATH\<close> is \<^verbatim>\<open>/usr/local/bin\<close>. \<^verbatim>\<open>printenv PATH\<close>, found only in
  \<^verbatim>\<open>/usr/local/bin\<close>, prints a different value in each. \<^verbatim>\<open>PATH=$PATH/tools mytool\<close>,
  found in neither place, runs in the first environment and is not found in the second.
\<close>

theorem path_is_observable:
  "provision plain_builder Dockerfile = Some [''PATH'' \<mapsto> ''/usr/local/bin:/.cargo/bin''] \<and>
   provision plain_builder Dockerfile_variant = Some [''PATH'' \<mapsto> ''/.cargo/bin:/usr/local/bin''] \<and>
   ambient_dirs [''PATH'' \<mapsto> ''/usr/local/bin''] = [''/usr/local/bin''] \<and>
   cargo_dirs [''PATH'' \<mapsto> ''/usr/local/bin''] = [''/.cargo/bin''] \<and>
   has_exe printenv_box ''/.cargo/bin'' ''printenv'' = False \<and>
   sr_output (fst (run_command printenv_box [''PATH'' \<mapsto> ''/usr/local/bin:/.cargo/bin'']
       no_files printenv_path)) = ''/usr/local/bin:/.cargo/bin'' \<and>
   sr_output (fst (run_command printenv_box [''PATH'' \<mapsto> ''/.cargo/bin:/usr/local/bin'']
       no_files printenv_path)) = ''/.cargo/bin:/usr/local/bin'' \<and>
   has_exe tool_box ''/usr/local/bin'' ''mytool'' = False \<and>
   has_exe tool_box ''/.cargo/bin'' ''mytool'' = False \<and>
   sr_exit (fst (run_command tool_box [''PATH'' \<mapsto> ''/usr/local/bin:/.cargo/bin'']
       no_files run_mytool)) = 0 \<and>
   sr_exit (fst (run_command tool_box [''PATH'' \<mapsto> ''/.cargo/bin:/usr/local/bin'']
       no_files run_mytool)) = 127"
  by (simp add: provision_Dockerfile provision_variant plain_builder_def printenv_box_def
      printenv_path_def tool_box_def run_mytool_def expand_def ambient_dirs_def cargo_dirs_def
      run_command_def stage_env_def resolve_def lookup_in_def path_dirs_def)

section \<open>Steps, jobs and the run\<close>

lemma run_steps_append:
  "run_steps w st (xs @ ys) =
     (case run_steps w st xs of (None, st') \<Rightarrow> run_steps w st' ys | (Some f, st') \<Rightarrow> (Some f, st'))"
  by (induction xs arbitrary: st) (auto split: prod.splits option.splits)

lemma steps_build_job: "steps build_job = build_steps @ collection_steps"
  by (simp add: build_steps_def collection_steps_def)

lemma collect_eq:
  "collect w st =
     (let ws = workspace st; found = found_files [''dist/*'', ''pkg/*''] ws;
          st1 = (if found = [] then st else st\<lparr>store := store st @ [(''build-artifacts'', found)]\<rparr>)
      in if found = [] \<and> no_files_policy w = Error
         then (Some (CollectionError ''build-artifacts'' [''dist/*'', ''pkg/*'']), st)
         else if dir_exists ws ''dist/''
         then (None, st1\<lparr>store := store st1 @
                 [(''github-pages'', map (relative_to ''dist/'') (pages_members ''dist/'' ws))]\<rparr>)
         else (Some (CollectionError ''github-pages'' [''dist/'']), st1))"
  by (simp add: collect_def collection_steps_def build_job_def run_step_def upload_artifact_def
      upload_pages_artifact_def input_or_def Let_def)

lemma after_build_eq:
  "after_build w =
     (case checkout_repo w of
        None \<Rightarrow> (Some (ActionError ''actions/checkout@v2''), fresh initial)
      | Some tree \<Rightarrow>
          if buildx_ok w then compose_run w build_script ((fresh initial)\<lparr>workspace := tree\<rparr>)
          else (Some (ActionError ''docker/setup-buildx-action@v3''), (fresh initial)\<lparr>workspace := tree\<rparr>))"
  by (simp add: after_build_def build_steps_def build_job_def run_step_def
      split: option.splits prod.splits)

lemma deploy_eq:
  "run_job w st deploy_job =
     (case map_of (store st) ''github-pages'' of
        None \<Rightarrow> (Failure PublishError, fresh st)
      | Some ms \<Rightarrow>
          (case publish w ms of
             None \<Rightarrow> (Failure PublishError, fresh st)
           | Some u \<Rightarrow>
               (Success, (fresh st)\<lparr>site := Some ms, outputs := [(''deployment'', ''page_url'', u)],
                           urls := urls st @ [(''github-pages'', u)]\<rparr>)))"
  by (simp add: run_job_def deploy_job_def run_step_def deploy_pages_def input_or_def fresh_def
      record_url_def output_of_def split: option.splits)

lemma run_workflow_eq:
  "run_workflow w workflow ev =
     (case after_build w of
        (Some f, st) \<Rightarrow>
          \<lparr>trigger = ev, conclusions = [(''build'', Failure f), (''deploy'', Skipped)], final = st\<rparr>
      | (None, st) \<Rightarrow>
          (case collect w st of
             (Some f, st') \<Rightarrow>
               \<lparr>trigger = ev, conclusions = [(''build'', Failure f), (''deploy'', Skipped)], final = st'\<rparr>
           | (None, st') \<Rightarrow>
               (case run_job w st' deploy_job of
                  (c, st'') \<Rightarrow>
                    \<lparr>trigger = ev, conclusions = [(''build'', Success), (''deploy'', c)], final = st''\<rparr>)))"
  by (simp add: run_workflow_def workflow_def run_job_def [of w initial build_job] steps_build_job
        run_steps_append after_build_def [symmetric] collect_def [symmetric] record_url_def
        build_job_def [THEN arg_cong, of environment] build_job_def [THEN arg_cong, of job_name]
        build_job_def [THEN arg_cong, of needs]
        deploy_job_def [THEN arg_cong, of needs] deploy_job_def [THEN arg_cong, of job_name]
      split: prod.splits option.splits)

lemma glob_star: "CHR ''/'' \<notin> set s \<Longrightarrow> glob_match ''*'' s"
  by (induction s) auto

lemma inside_dist: "inside ''dist/'' f = (\<exists>r. r \<noteq> [] \<and> f = ''dist/'' @ r)"
proof
  assume "inside ''dist/'' f"
  then have t: "take 5 f = ''dist/''" and l: "5 < length f"
    by (simp_all add: inside_def strip_slash_def eval_nat_numeral)
  have "f = take 5 f @ drop 5 f" by simp
  with t l show "\<exists>r. r \<noteq> [] \<and> f = ''dist/'' @ r"
    by (intro exI [of _ "drop 5 f"]) (metis drop_eq_Nil not_le)
next
  assume "\<exists>r. r \<noteq> [] \<and> f = ''dist/'' @ r"
  then show "inside ''dist/'' f"
    by (auto simp: inside_def strip_slash_def)
qed

lemma inside_selects:
  assumes "inside ''dist/'' f"
  shows "selects ''dist/*'' f"
proof -
  from assms obtain r where r: "r \<noteq> []" "f = ''dist/'' @ r"
    by (auto simp: inside_dist)
  let ?P = "\<lambda>c. c \<noteq> CHR ''/''"
  let ?seg = "takeWhile ?P r"
  let ?n = "5 + length ?seg"
  have len: "length ?seg \<le> length r" by (rule length_takeWhile_le)
  have tk: "take ?n f = ''dist/'' @ ?seg"
  proof -
    have "take (length ?seg) r = ?seg"
      by (metis takeWhile_eq_take)
    then show ?thesis by (simp add: r(2) eval_nat_numeral)
  qed
  have "CHR ''/'' \<notin> set ?seg"
    by (auto dest: set_takeWhileD)
  then have m: "glob_match ''dist/*'' (take ?n f)"
    unfolding tk using glob_star [of ?seg] by simp
  have bound: "?n = length f \<or> f ! ?n = CHR ''/''"
  proof (cases "length ?seg = length r")
    case True
    then show ?thesis by (simp add: r(2))
  next
    case False
    with len have lt: "length ?seg < length r" by simp
    then have "\<not> ?P (r ! length ?seg)"
      by (rule nth_length_takeWhile)
    moreover have "f ! ?n = r ! length ?seg"
      by (simp add: r(2) nth_append)
    ultimately show ?thesis by simp
  qed
  have lf: "length f = 5 + length r" by (simp add: r(2))
  have "?n \<in> set [1..<Suc (length f)]"
    using len lf by simp
  with bound m show ?thesis
    unfolding selects_def entry_prefixes_def list_ex_iff
    by (intro bexI [of _ "take ?n f"]) auto
qed

lemma glob_head: "glob_match (p # ps) s \<Longrightarrow> p \<noteq> CHR ''*'' \<Longrightarrow> \<exists>cs. s = p # cs"
  by (cases s) auto

lemma selects_head:
  assumes "selects (p # ps) f" and "p \<noteq> CHR ''*''"
  shows "\<exists>cs. f = p # cs"
proof -
  from assms(1) obtain n where "glob_match (p # ps) (take n f)"
    by (auto simp: selects_def entry_prefixes_def list_ex_iff)
  from glob_head [OF this assms(2)] obtain cs where "take n f = p # cs" ..
  then show ?thesis by (cases f) (auto split: if_splits simp: take_Cons')
qed

lemma pkg_not_dist: "selects ''pkg/*'' f \<Longrightarrow> \<not> inside ''dist/'' f"
  using selects_head [of "CHR ''p''" "''kg/*''" f] by (auto simp: inside_dist)

lemma found_dist:
  "list_ex (\<lambda>f. inside ''dist/'' f \<and> \<not> hidden f) (fs_files ws) \<Longrightarrow>
     found_files [''dist/*'', ''pkg/*''] ws \<noteq> []"
  by (auto simp: found_files_def list_ex_iff filter_empty_conv dest: inside_selects)

lemma dist_exists:
  "list_ex (\<lambda>f. inside ''dist/'' f \<and> \<not> hidden f) (fs_files ws) \<Longrightarrow> dir_exists ws ''dist/''"
  by (auto simp: dir_exists_def list_ex_iff)

text \<open>
  Claim C5, amended. The two upload steps succeed exactly when the directory
  \<^verbatim>\<open>dist/\<close> exists and the patterns \<^verbatim>\<open>dist/*\<close> and \<^verbatim>\<open>pkg/*\<close> together are not
  refused as an empty result (they find a file, or the upload action does not treat an
  empty result as an error). In particular they succeed whenever a file that is not
  hidden lies in \<^verbatim>\<open>dist/\<close>, and then store one artifact holding whatever the two
  patterns found and the pages artifact. Whenever they succeed, the store gains the
  artifact of what the patterns found, if they found anything, and the pages artifact.
  A failure names the artifact with all its patterns, or the pages artifact with its
  directory, never one pattern among several.
\<close>

theorem collection_outcome:
  "(fst (collect w st) = None) =
     (dir_exists (workspace st) ''dist/'' \<and>
      \<not> (found_files [''dist/*'', ''pkg/*''] (workspace st) = [] \<and> no_files_policy w = Error)) \<and>
   (list_ex (\<lambda>f. inside ''dist/'' f \<and> \<not> hidden f) (fs_files (workspace st)) \<longrightarrow>
      collect w st =
        (None, st\<lparr>store := store st @
           [(''build-artifacts'', found_files [''dist/*'', ''pkg/*''] (workspace st)),
            (''github-pages'', map (relative_to ''dist/'') (pages_members ''dist/'' (workspace st)))]\<rparr>)) \<and>
   (fst (collect w st) = None \<longrightarrow>
      store (snd (collect w st)) =
        store st @
        (if found_files [''dist/*'', ''pkg/*''] (workspace st) = [] then []
         else [(''build-artifacts'', found_files [''dist/*'', ''pkg/*''] (workspace st))]) @
        [(''github-pages'', map (relative_to ''dist/'') (pages_members ''dist/'' (workspace st)))]) \<and>
   (fst (collect w st) = Some f \<longrightarrow>
      f = CollectionError ''build-artifacts'' [''dist/*'', ''pkg/*''] \<or>
      f = CollectionError ''github-pages'' [''dist/''])"
proof -
  have a: "(fst (collect w st) = None) =
     (dir_exists (workspace st) ''dist/'' \<and>
      \<not> (found_files [''dist/*'', ''pkg/*''] (workspace st) = [] \<and> no_files_policy w = Error))"
    by (simp add: collect_eq Let_def)
  have b: "collect w st =
        (None, st\<lparr>store := store st @
           [(''build-artifacts'', found_files [''dist/*'', ''pkg/*''] (workspace st)),
            (''github-pages'', map (relative_to ''dist/'') (pages_members ''dist/'' (workspace st)))]\<rparr>)"
    if "list_ex (\<lambda>f. inside ''dist/'' f \<and> \<not> hidden f) (fs_files (workspace st))"
    using found_dist [OF that] dist_exists [OF that] by (simp add: collect_eq Let_def)
  have s: "store (snd (collect w st)) =
        store st @
        (if found_files [''dist/*'', ''pkg/*''] (workspace st) = [] then []
         else [(''build-artifacts'', found_files [''dist/*'', ''pkg/*''] (workspace st))]) @
        [(''github-pages'', map (relative_to ''dist/'') (pages_members ''dist/'' (workspace st)))]"
    if "fst (collect w st) = None"
    using that by (auto simp: collect_eq Let_def split: if_splits)
  have c: "f = CollectionError ''build-artifacts'' [''dist/*'', ''pkg/*''] \<or>
      f = CollectionError ''github-pages'' [''dist/'']" if "fst (collect w st) = Some f"
    using that by (simp add: collect_eq Let_def split: if_splits)
  from a b s c show ?thesis by blast
qed

text \<open>
  Claim C5 says that collection succeeds only if every pattern matches a file, and that
  the first pattern without a match fails it. With bundler output in \<^verbatim>\<open>dist/\<close> and
  nothing under \<^verbatim>\<open>pkg/\<close>, the pattern \<^verbatim>\<open>pkg/*\<close> matches no file, and both upload
  steps succeed, even when an empty result is an error.
\<close>

theorem unmatched_pattern_tolerated:
  "found_files [''pkg/*''] (workspace dist_only) = [] \<and>
   fst (collect (sample_world []) dist_only) = None \<and>
   store (snd (collect (sample_world []) dist_only)) =
     [(''build-artifacts'', [''dist/index.html'', ''dist/index.js'']),
      (''github-pages'', [''index.html'', ''index.js''])]"
  by code_simp

theorem collection_outcome_witness:
  "list_ex (\<lambda>f. inside ''dist/'' f \<and> \<not> hidden f) (fs_files (workspace dist_only)) \<and>
   collect (sample_world []) dist_only =
     (None, dist_only\<lparr>store := store dist_only @
        [(''build-artifacts'', found_files [''dist/*'', ''pkg/*''] (workspace dist_only)),
         (''github-pages'', map (relative_to ''dist/'') (pages_members ''dist/'' (workspace dist_only)))]\<rparr>)"
proof -
  have a: "list_ex (\<lambda>f. inside ''dist/'' f \<and> \<not> hidden f) (fs_files (workspace dist_only))"
    by code_simp
  from collection_outcome [of "sample_world []" dist_only] a show ?thesis by blast
qed

lemma compose_run_ok:
  assumes "compose_run w cs st = (None, st')"
  shows "(\<exists>e. provision (image_builder w) (service_image w) = Some e) \<and>
         (\<exists>rs. results st' = results st @ rs \<and> map sr_stage rs = cs \<and>
               (\<forall>x \<in> set rs. sr_exit x = 0)) \<and>
         store st' = store st \<and> site st' = site st \<and> urls st' = urls st"
proof -
  from assms obtain e where e: "provision (image_builder w) (service_image w) = Some e"
    by (auto simp: compose_run_def split: option.splits)
  obtain rs fs' where rs: "run_stages (box w) (runtime_env w e) (workspace st) cs = (rs, fs')"
    by (cases "run_stages (box w) (runtime_env w e) (workspace st) cs")
  from assms e rs have x: "list_exit rs = 0" and st': "st' = st\<lparr>workspace := fs', results := results st @ rs\<rparr>"
    by (auto simp: compose_run_def split: if_splits)
  note sh = run_stages_shape [OF rs]
  have zero: "\<forall>x \<in> set rs. sr_exit x = 0"
  proof
    fix y assume "y \<in> set rs"
    then obtain i where i: "i < length rs" "rs ! i = y" by (auto simp: in_set_conv_nth)
    show "sr_exit y = 0"
    proof (cases "Suc i < length rs")
      case True
      with sh i(2) show ?thesis by auto
    next
      case False
      with i(1) have "i = length rs - 1" by simp
      with i have "y = last rs" by (cases rs rule: rev_cases) (auto simp: nth_append)
      with x i(1) show ?thesis by (auto simp: list_exit_def split: if_splits)
    qed
  qed
  with sh have "map sr_stage rs = cs" by simp
  with e zero show ?thesis by (auto simp: st')
qed

lemma compose_run_frame:
  "store (snd (compose_run w cs st)) = store st \<and> site (snd (compose_run w cs st)) = site st \<and>
   urls (snd (compose_run w cs st)) = urls st"
  by (simp add: compose_run_def split: option.splits prod.splits)

lemma after_build_frame:
  "store (snd (after_build w)) = [] \<and> site (snd (after_build w)) = None \<and>
   urls (snd (after_build w)) = []"
  by (simp add: after_build_eq compose_run_frame fresh_def initial_def split: option.splits)

lemma after_build_ok:
  assumes "fst (after_build w) = None"
  shows "checkout_repo w \<noteq> None \<and> buildx_ok w \<and>
         (\<exists>e. provision (image_builder w) (service_image w) = Some e) \<and>
         map sr_stage (results (snd (after_build w))) = build_script \<and>
         (\<forall>x \<in> set (results (snd (after_build w))). sr_exit x = 0)"
proof -
  from assms obtain tree where t: "checkout_repo w = Some tree" and b: "buildx_ok w"
    by (auto simp: after_build_eq split: option.splits if_splits)
  let ?st = "(fresh initial)\<lparr>workspace := tree\<rparr>"
  have ab: "after_build w = compose_run w build_script ?st"
    by (simp add: after_build_eq t b)
  with assms have "compose_run w build_script ?st = (None, snd (after_build w))"
    by (metis prod.collapse)
  from compose_run_ok [OF this] t b show ?thesis
    by (auto simp: fresh_def initial_def)
qed

lemma collect_frame:
  "site (snd (collect w st)) = site st \<and> urls (snd (collect w st)) = urls st \<and>
   results (snd (collect w st)) = results st \<and> workspace (snd (collect w st)) = workspace st"
  by (simp add: collect_eq Let_def)

lemma collect_pages:
  "fst (collect w st) = None \<Longrightarrow> store st = [] \<Longrightarrow>
     map_of (store (snd (collect w st))) ''github-pages'' =
       Some (map (relative_to ''dist/'') (pages_members ''dist/'' (workspace st)))"
  by (simp add: collect_eq Let_def split: if_splits)

text \<open>
  Claim C8. In every run of the workflow: the deploy job runs only if the build job
  succeeded, and the build job succeeded only if the checkout and the Docker set-up
  succeeded, the image was provisioned, every stage of the build script ran and exited
  with status zero, and the pages artifact was collected. The hosting target shows
  something exactly when the deploy job succeeded; the run is then Succeeded and carries
  the URL the hosting target returned for the collected pages artifact, which is not
  empty when the target never returns an empty URL. If the build job fails, the deploy
  job is skipped, nothing is published and the run is Failed with the build's failure.
\<close>

theorem deploy_after_build:
  assumes r: "r = run_workflow w workflow ev"
  shows
  "(map_of (conclusions r) ''deploy'' \<noteq> Some Skipped \<longrightarrow>
      map_of (conclusions r) ''build'' = Some Success) \<and>
   (map_of (conclusions r) ''build'' = Some Success \<longrightarrow>
      checkout_repo w \<noteq> None \<and> buildx_ok w \<and>
      (\<exists>e. provision (image_builder w) (service_image w) = Some e) \<and>
      map sr_stage (results (final r)) = build_script \<and>
      (\<forall>x \<in> set (results (final r)). sr_exit x = 0) \<and>
      (\<exists>ms. map_of (store (final r)) ''github-pages'' = Some ms)) \<and>
   ((site (final r) \<noteq> None) = (map_of (conclusions r) ''deploy'' = Some Success)) \<and>
   (map_of (conclusions r) ''deploy'' = Some Success \<longrightarrow>
      run_status (conclusions r) = Succeeded \<and>
      (\<exists>ms. map_of (store (final r)) ''github-pages'' = Some ms \<and> site (final r) = Some ms \<and>
            publish w ms = Some (run_url r)) \<and>
      ((\<forall>ms u. publish w ms = Some u \<longrightarrow> u \<noteq> []) \<longrightarrow> run_url r \<noteq> [])) \<and>
   (map_of (conclusions r) ''build'' = Some (Failure f) \<longrightarrow>
      map_of (conclusions r) ''deploy'' = Some Skipped \<and> site (final r) = None \<and>
      run_status (conclusions r) = Failed f)"
proof -
  obtain fa sa where ab: "after_build w = (fa, sa)" by (cases "after_build w")
  from after_build_frame [of w] ab have fr: "store sa = []" "site sa = None" "urls sa = []"
    by simp_all
  show ?thesis
  proof (cases fa)
    case (Some f0)
    then show ?thesis using ab fr by (simp add: r run_workflow_eq)
  next
    case None
    from after_build_ok [of w] ab None have ok:
      "checkout_repo w \<noteq> None" "buildx_ok w"
      "\<exists>e. provision (image_builder w) (service_image w) = Some e"
      "map sr_stage (results sa) = build_script" "\<forall>x \<in> set (results sa). sr_exit x = 0"
      by simp_all
    obtain fc sc where co: "collect w sa = (fc, sc)" by (cases "collect w sa")
    from collect_frame [of w sa] co fr have cf: "site sc = None" "urls sc = []"
      "results sc = results sa" by simp_all
    show ?thesis
    proof (cases fc)
      case (Some f1)
      then show ?thesis using ab None co cf by (simp add: r run_workflow_eq)
    next
      case fcN: None
      from collect_pages [of w sa] co fcN fr(1) obtain ms0 where
        pg: "map_of (store sc) ''github-pages'' = Some ms0" by simp
      show ?thesis
      proof (cases "publish w ms0")
        case None
        then show ?thesis
          using ab \<open>fa = None\<close> co fcN cf pg ok
          by (simp add: r run_workflow_eq deploy_eq fresh_def)
      next
        case (Some u)
        then show ?thesis
          using ab \<open>fa = None\<close> co fcN cf pg ok
          by (auto simp: r run_workflow_eq deploy_eq fresh_def run_url_def)
      qed
    qed
  qed
qed

theorem deploy_after_build_witness:
  "run_status (conclusions (run_workflow (sample_world full_build) workflow (Push (Branch ''main'')))) =
     Succeeded \<and>
   run_url (run_workflow (sample_world full_build) workflow (Push (Branch ''main''))) =
     ''https://pages.example/GearGen/'' \<and>
   run_url (run_workflow (sample_world full_build) workflow (Push (Branch ''main''))) \<noteq> []"
proof -
  let ?r = "run_workflow (sample_world full_build) workflow (Push (Branch ''main''))"
  have a: "map_of (conclusions ?r) ''deploy'' = Some Success"
    by code_simp
  have b: "\<forall>ms u. publish (sample_world full_build) ms = Some u \<longrightarrow> u \<noteq> []"
    by (auto simp: sample_world_def)
  have c: "run_url ?r = ''https://pages.example/GearGen/''"
    by code_simp
  from deploy_after_build [OF refl, where w = "sample_world full_build"
      and ev = "Push (Branch ''main'')"] a b c
  show ?thesis by blast
qed

lemma bundle_in_dist:
  "workspace_path root (bundle_file root webpack_prod) = Some ''dist/index.js''"
  by (simp add: workspace_path_def bundle_file_def webpack_prod_def path_resolve_def inside_def
      relative_to_def Let_def)

lemma collect_build_artifacts:
  assumes "fst (collect w st) = None" and "store st = []"
  shows "map_of (store (snd (collect w st))) ''build-artifacts'' =
           (if found_files [''dist/*'', ''pkg/*''] (workspace st) = [] then None
            else Some (found_files [''dist/*'', ''pkg/*''] (workspace st)))"
  using assms by (simp add: collect_eq Let_def split: if_splits)

text \<open>
  Claim C10. What the hosting target shows after a run is the pages artifact: the files
  that the build left inside \<^verbatim>\<open>dist/\<close>, without repository entries (\<^verbatim>\<open>.git\<close>,
  \<^verbatim>\<open>.github\<close>), named relative to \<^verbatim>\<open>dist/\<close>; every published name comes from a
  file inside \<^verbatim>\<open>dist/\<close>. The stored artifact \<^verbatim>\<open>build-artifacts\<close> holds what
  \<^verbatim>\<open>dist/*\<close> and \<^verbatim>\<open>pkg/*\<close> found. A file that \<^verbatim>\<open>pkg/*\<close> selects is not inside
  \<^verbatim>\<open>dist/\<close>, so it is not a member of the pages artifact, though, unless it is hidden,
  it is a member of \<^verbatim>\<open>build-artifacts\<close>. The bundle the production configuration
  emits, \<^verbatim>\<open>dist/index.js\<close> below the configuration's directory, is inside
  \<^verbatim>\<open>dist/\<close>.
\<close>

theorem only_dist_published:
  assumes r: "r = run_workflow w workflow ev"
  shows
  "(site (final r) = Some ms \<longrightarrow>
      fst (after_build w) = None \<and>
      ms = map (relative_to ''dist/'') (pages_members ''dist/'' (built w)) \<and>
      (\<forall>m \<in> set ms. \<exists>f \<in> set (fs_files (built w)).
         inside ''dist/'' f \<and> m = relative_to ''dist/'' f) \<and>
      map_of (store (final r)) ''build-artifacts'' =
        (if found_files [''dist/*'', ''pkg/*''] (built w) = [] then None
         else Some (found_files [''dist/*'', ''pkg/*''] (built w))) \<and>
      (\<forall>f \<in> set (fs_files (built w)). selects ''pkg/*'' f \<longrightarrow>
         \<not> inside ''dist/'' f \<and>
         f \<notin> set (pages_members ''dist/'' (built w)) \<and>
         (\<not> hidden f \<longrightarrow> f \<in> set (found_files [''dist/*'', ''pkg/*''] (built w))))) \<and>
   workspace_path root (bundle_file root webpack_prod) = Some ''dist/index.js'' \<and>
   inside ''dist/'' ''dist/index.js''"
proof -
  obtain fa sa where ab: "after_build w = (fa, sa)" by (cases "after_build w")
  from after_build_frame [of w] ab have fr: "store sa = []" "site sa = None" "urls sa = []"
    by simp_all
  have bw: "built w = workspace sa" by (simp add: built_def ab)
  obtain fc sc where co: "collect w sa = (fc, sc)" by (cases "collect w sa")
  from collect_frame [of w sa] co fr have cf: "site sc = None" by simp
  have pkg: "\<not> inside ''dist/'' f \<and> f \<notin> set (pages_members ''dist/'' (built w)) \<and>
         (\<not> hidden f \<longrightarrow> f \<in> set (found_files [''dist/*'', ''pkg/*''] (built w)))"
    if "f \<in> set (fs_files (built w))" "selects ''pkg/*'' f" for f
    using that pkg_not_dist [OF that(2)] by (simp add: pages_members_def found_files_def)
  have main: "fst (after_build w) = None \<and>
      ms = map (relative_to ''dist/'') (pages_members ''dist/'' (built w)) \<and>
      (\<forall>m \<in> set ms. \<exists>f \<in> set (fs_files (built w)).
         inside ''dist/'' f \<and> m = relative_to ''dist/'' f) \<and>
      map_of (store (final r)) ''build-artifacts'' =
        (if found_files [''dist/*'', ''pkg/*''] (built w) = [] then None
         else Some (found_files [''dist/*'', ''pkg/*''] (built w))) \<and>
      (\<forall>f \<in> set (fs_files (built w)). selects ''pkg/*'' f \<longrightarrow>
         \<not> inside ''dist/'' f \<and>
         f \<notin> set (pages_members ''dist/'' (built w)) \<and>
         (\<not> hidden f \<longrightarrow> f \<in> set (found_files [''dist/*'', ''pkg/*''] (built w))))"
    if s: "site (final r) = Some ms"
  proof -
    from s have fa: "fa = None"
      using ab fr by (cases fa) (simp_all add: r run_workflow_eq)
    from s fa have fc: "fc = None"
      using ab co cf by (cases fc) (simp_all add: r run_workflow_eq)
    from collect_pages [of w sa] co fc fr(1) have
      pg: "map_of (store sc) ''github-pages'' =
             Some (map (relative_to ''dist/'') (pages_members ''dist/'' (workspace sa)))" by simp
    from s have fin: "ms = map (relative_to ''dist/'') (pages_members ''dist/'' (workspace sa)) \<and>
        store (final r) = store sc"
      using ab fa co fc cf pg
      by (cases "publish w (map (relative_to ''dist/'') (pages_members ''dist/'' (workspace sa)))")
         (simp_all add: r run_workflow_eq deploy_eq fresh_def)
    have ba: "map_of (store (final r)) ''build-artifacts'' =
        (if found_files [''dist/*'', ''pkg/*''] (built w) = [] then None
         else Some (found_files [''dist/*'', ''pkg/*''] (built w)))"
      using collect_build_artifacts [of w sa] co fc fr(1) fin by (simp add: bw)
    have prov: "\<forall>m \<in> set ms. \<exists>f \<in> set (fs_files (built w)).
         inside ''dist/'' f \<and> m = relative_to ''dist/'' f"
      using fin by (auto simp: bw pages_members_def)
    have f1: "fst (after_build w) = None" using fa ab by simp
    have f2: "ms = map (relative_to ''dist/'') (pages_members ''dist/'' (built w))"
      using fin by (simp add: bw)
    from f1 f2 prov ba pkg show ?thesis by blast
  qed
  have "inside ''dist/'' ''dist/index.js''"
    by (simp add: inside_dist)
  with main bundle_in_dist show ?thesis by blast
qed

theorem only_dist_published_witness:
  "site (final (run_workflow (sample_world build_with_hidden) workflow (Push (Branch ''main'')))) =
     Some [''index.html'', ''index.js''] \<and>
   map_of (store (final (run_workflow (sample_world build_with_hidden) workflow
     (Push (Branch ''main''))))) ''build-artifacts'' = Some full_build \<and>
   \<not> inside ''dist/'' ''pkg/geargen_bg.wasm'' \<and>
   ''pkg/geargen_bg.wasm'' \<in>
     set (found_files [''dist/*'', ''pkg/*''] (built (sample_world build_with_hidden)))"
proof -
  let ?w = "sample_world build_with_hidden"
  let ?r = "run_workflow ?w workflow (Push (Branch ''main''))"
  have a: "site (final ?r) = Some [''index.html'', ''index.js'']"
    by code_simp
  have b: "''pkg/geargen_bg.wasm'' \<in> set (fs_files (built ?w))"
    by code_simp
  have c: "selects ''pkg/*'' ''pkg/geargen_bg.wasm''"
    by code_simp
  have d: "map_of (store (final ?r)) ''build-artifacts'' = Some full_build"
    by code_simp
  have e: "\<not> hidden ''pkg/geargen_bg.wasm''"
    by code_simp
  from only_dist_published [OF refl, where w = ?w
      and ev = "Push (Branch ''main'')" and ms = "[''index.html'', ''index.js'']"] a b c d e
  show ?thesis by blast
qed

end
